theory Spec2Isabelle
  imports
    Main
    "HOL-Library.AList"
    "HOL-Library.Char_ord"
    "HOL-Library.List_Lexorder"
begin

section \<open>postgres-utils: a shallow embedding of \<open>src/index.ts\<close>\<close>

text \<open>
  The library is a handful of pure functions over strings and plain objects. The embedding
  follows the TypeScript source function by function and keeps its names.

  \<^item> A JavaScript string is a \<open>string\<close>: the list of its code units. Only code units below 256
    are representable; the regular expressions of the source look at ASCII classes only.
  \<^item> A plain object is the list of its own enumerable entries in the order
    \<open>Object.entries\<close> yields them, keys distinct. This order is what the spec calls
    insertion order. (For keys that are canonical array indices JavaScript yields them first,
    ascending; the embedding takes the enumeration as given.)
  \<^item> An assignment \<open>converted[key] = value\<close> overwrites an own entry in place or appends a
    new one (\<open>AList.update\<close>), except where the key is \<open>__proto__\<close> and the accessor of
    \<open>Object.prototype\<close> is inherited: then the prototype is set and no entry is stored.
  \<^item> A \<open>throw\<close> is the left injection of a sum type; \<open>forEach\<close> stops at the first one.
  \<^item> Numbers that the code computes with (array lengths, the parameter offset, parsed keys)
    are integers, added exactly; \<open>Number_toString\<close> prints them in decimal. This is what
    JavaScript does as long as the numbers are safe integers (\<open>safe_integer\<close> below, at most
    \<open>2^53 - 1\<close> in absolute value); beyond them a double rounds, and the properties of the
    fragment builders that depend on the numbers are stated for safe integers.
\<close>

subsection \<open>Characters and strings\<close>

definition is_upper :: "char \<Rightarrow> bool" where
  "is_upper c \<longleftrightarrow> 65 \<le> (of_char c :: nat) \<and> (of_char c :: nat) \<le> 90"

definition is_lower :: "char \<Rightarrow> bool" where
  "is_lower c \<longleftrightarrow> 97 \<le> (of_char c :: nat) \<and> (of_char c :: nat) \<le> 122"

definition is_digit :: "char \<Rightarrow> bool" where
  "is_digit c \<longleftrightarrow> 48 \<le> (of_char c :: nat) \<and> (of_char c :: nat) \<le> 57"

text \<open>\<open>toLowerCase\<close> and \<open>toUpperCase\<close> on one code unit; the source applies them to a
  character matched by \<open>[A-Z]\<close> and by \<open>[a-z]\<close> respectively.\<close>

definition toLowerCase :: "char \<Rightarrow> char" where
  "toLowerCase c = (if is_upper c then char_of ((of_char c :: nat) + 32) else c)"

definition toUpperCase :: "char \<Rightarrow> char" where
  "toUpperCase c = (if is_lower c then char_of ((of_char c :: nat) - 32) else c)"

text \<open>Decimal printing of a natural number, and of an integer (\<open>Number.prototype.toString\<close>).\<close>

fun digits_of :: "nat \<Rightarrow> string" where
  "digits_of n =
     (if n < 10 then [char_of (48 + n)]
      else digits_of (n div 10) @ [char_of (48 + n mod 10)])"

declare digits_of.simps [simp del]

definition Number_toString :: "int \<Rightarrow> string" where
  "Number_toString n =
     (if n < 0 then CHR ''-'' # digits_of (nat (- n)) else digits_of (nat n))"

text \<open>The integers that a JavaScript number holds exactly and that arithmetic on numbers
  does not round (\<open>Number.isSafeInteger\<close>). \<open>Number_toString\<close>, the sums of the fragment
  builders and \<open>parseInt\<close> below are what the source computes as long as every number
  involved is one of these; beyond them the source rounds and the embedding does not.\<close>

definition safe_integer :: "int \<Rightarrow> bool" where
  "safe_integer n \<longleftrightarrow> - 9007199254740991 \<le> n \<and> n \<le> 9007199254740991"

text \<open>\<open>Array.prototype.join\<close> on an array of strings.\<close>

fun join :: "string \<Rightarrow> string list \<Rightarrow> string" where
  "join sep [] = []"
| "join sep [x] = x"
| "join sep (x # y # ys) = x @ sep @ join sep (y # ys)"

text \<open>\<open>String.prototype.split\<close> with a separator of one character: the empty string
  splits into one empty piece.\<close>

fun split :: "char \<Rightarrow> string \<Rightarrow> string list" where
  "split sep [] = [[]]"
| "split sep (c # cs) =
     (if c = sep then [] # split sep cs
      else (case split sep cs of [] \<Rightarrow> [[c]] | t # ts \<Rightarrow> (c # t) # ts))"

subsection \<open>Values, errors, iteration\<close>

text \<open>The error thrown by the source itself (\<open>new Error("Invalid comparison operator")\<close>)
  and the one the runtime throws when a property of \<open>null\<close> is read or a non-function is
  called.\<close>

datatype error = InvalidOperator | TypeError

datatype jsval =
    JUndefined
  | JNull
  | JBool bool
  | JNum int
  | JStr string
  | JDate int
  | JArr "jsval list"
  | JObj "(string \<times> jsval) list"
  | JObjP jsval "(string \<times> jsval) list"

text \<open>\<open>JObj es\<close> is an object with the own entries \<open>es\<close> whose prototype is
  \<open>Object.prototype\<close>, as an object literal or \<open>JSON.parse\<close> makes it. \<open>JObjP proto es\<close> is
  an object whose prototype has been set to the value \<open>proto\<close>: \<open>null\<close> or another object.\<close>

definition typeof :: "jsval \<Rightarrow> string" where
  "typeof v =
     (case v of
        JUndefined \<Rightarrow> ''undefined''
      | JNull \<Rightarrow> ''object''
      | JBool _ \<Rightarrow> ''boolean''
      | JNum _ \<Rightarrow> ''number''
      | JStr _ \<Rightarrow> ''string''
      | JDate _ \<Rightarrow> ''object''
      | JArr _ \<Rightarrow> ''object''
      | JObj _ \<Rightarrow> ''object''
      | JObjP _ _ \<Rightarrow> ''object'')"

text \<open>\<open>v instanceof Date\<close> looks for \<open>Date.prototype\<close> on the prototype chain of \<open>v\<close>.\<close>

fun instanceof_Date :: "jsval \<Rightarrow> bool" where
  "instanceof_Date (JDate _) = True"
| "instanceof_Date (JObjP proto _) = instanceof_Date proto"
| "instanceof_Date _ = False"

text \<open>\<open>Object.entries\<close>: it throws on \<open>null\<close> and \<open>undefined\<close>, enumerates an array by
  its indices and a string by its characters, and finds no own enumerable entry in a number, a
  boolean or a \<open>Date\<close>.\<close>

definition Object_entries :: "jsval \<Rightarrow> error + (string \<times> jsval) list" where
  "Object_entries v =
     (case v of
        JUndefined \<Rightarrow> Inl TypeError
      | JNull \<Rightarrow> Inl TypeError
      | JObj es \<Rightarrow> Inr es
      | JObjP _ es \<Rightarrow> Inr es
      | JArr xs \<Rightarrow> Inr (zip (map (\<lambda>i. Number_toString (int i)) [0..<length xs]) xs)
      | JStr s \<Rightarrow>
          Inr (zip (map (\<lambda>i. Number_toString (int i)) [0..<length s]) (map (\<lambda>c. JStr [c]) s))
      | _ \<Rightarrow> Inr [])"

text \<open>The assignment \<open>converted[key] = value\<close> to a plain object. An own property of that
  name is overwritten in place. Otherwise the prototype chain is searched: the only setter an
  object of this model can inherit is the accessor \<open>__proto__\<close> of \<open>Object.prototype\<close>, which
  sets the prototype when the value is an object or \<open>null\<close>, does nothing for any other value,
  and in both cases stores no entry. It is reached unless the chain ends in \<open>null\<close> first or an
  object on the chain has an own property \<open>__proto__\<close>. In every other case the entry is
  appended to the own properties.\<close>

fun inherits_proto_setter :: "jsval \<Rightarrow> bool" where
  "inherits_proto_setter (JObj es) \<longleftrightarrow> ''__proto__'' \<notin> fst ` set es"
| "inherits_proto_setter (JObjP proto es) \<longleftrightarrow>
     ''__proto__'' \<notin> fst ` set es \<and> inherits_proto_setter proto"
| "inherits_proto_setter (JDate _) \<longleftrightarrow> True"
| "inherits_proto_setter (JArr _) \<longleftrightarrow> True"
| "inherits_proto_setter _ \<longleftrightarrow> False"

fun assign :: "jsval \<Rightarrow> string \<Rightarrow> jsval \<Rightarrow> jsval" where
  "assign (JObj es) key v =
     (if key = ''__proto__'' \<and> key \<notin> fst ` set es
      then (if typeof v = ''object'' then JObjP v es else JObj es)
      else JObj (AList.update key v es))"
| "assign (JObjP proto es) key v =
     (if key = ''__proto__'' \<and> key \<notin> fst ` set es \<and> inherits_proto_setter proto
      then (if typeof v = ''object'' then JObjP v es else JObjP proto es)
      else JObjP proto (AList.update key v es))"
| "assign obj key v = obj"

text \<open>The own entries of a plain object, in the order in which they were stored.\<close>

fun own_entries :: "jsval \<Rightarrow> (string \<times> jsval) list" where
  "own_entries (JObj es) = es"
| "own_entries (JObjP proto es) = es"
| "own_entries v = []"

text \<open>\<open>forEach\<close> with a callback that may throw: the state is what the callback mutates.\<close>

fun forEach :: "('a \<Rightarrow> 's \<Rightarrow> error + 's) \<Rightarrow> 'a list \<Rightarrow> 's \<Rightarrow> error + 's" where
  "forEach f [] s = Inr s"
| "forEach f (x # xs) s = (case f x s of Inl e \<Rightarrow> Inl e | Inr s' \<Rightarrow> forEach f xs s')"

lemma forEach_cong [fundef_cong]:
  "xs = ys \<Longrightarrow> s = t \<Longrightarrow> (\<And>x u. x \<in> set ys \<Longrightarrow> f x u = g x u)
    \<Longrightarrow> forEach f xs s = forEach g ys t"
  by (induction ys arbitrary: xs s t) (auto split: sum.splits)

lemma size_member_entries:
  "(k, v) \<in> set es \<Longrightarrow> size v < Suc (size_list (size_prod (\<lambda>x. 0) size) es)"
  by (induction es) auto

lemma size_member_elements: "(v :: jsval) \<in> set xs \<Longrightarrow> size v < Suc (size_list size xs)"
  by (induction xs) auto

lemma Object_entries_smaller:
  assumes "Object_entries obj = Inr es" and "(k, v) \<in> set es" and "typeof v = ''object''"
  shows "size v < size obj"
proof (cases obj)
  case (JObj es')
  with assms show ?thesis
    using size_member_entries [of k v es'] by (simp add: Object_entries_def)
next
  case (JObjP proto es')
  with assms show ?thesis
    using size_member_entries [of k v es'] by (simp add: Object_entries_def)
next
  case (JArr xs)
  with assms have "v \<in> set xs"
    by (auto simp: Object_entries_def dest: set_zip_rightD)
  with JArr show ?thesis
    using size_member_elements [of v xs] by simp
next
  case (JStr s)
  with assms have "v \<in> set (map (\<lambda>c. JStr [c]) s)"
    by (auto simp: Object_entries_def dest: set_zip_rightD)
  with assms(3) show ?thesis
    by (auto simp: typeof_def)
qed (use assms in \<open>auto simp: Object_entries_def\<close>)

subsection \<open>Case conversion (lines 1-49)\<close>

text \<open>\<open>s.replace(/[A-Z]/g, (match) => `_${match.toLowerCase()}`)\<close>\<close>

fun camelToSnakeCaseString :: "string \<Rightarrow> string" where
  "camelToSnakeCaseString [] = []"
| "camelToSnakeCaseString (c # cs) =
     (if is_upper c then CHR ''_'' # toLowerCase c # camelToSnakeCaseString cs
      else c # camelToSnakeCaseString cs)"

text \<open>\<open>s.replace(/_[a-z]/g, (match) => match.charAt(1).toUpperCase())\<close>: the scan goes
  left to right and resumes after a match.\<close>

fun snakeToCamelCaseString :: "string \<Rightarrow> string" where
  "snakeToCamelCaseString (c # d # cs) =
     (if c = CHR ''_'' \<and> is_lower d then toUpperCase d # snakeToCamelCaseString cs
      else c # snakeToCamelCaseString (d # cs))"
| "snakeToCamelCaseString cs = cs"

function camelToSnakeCaseKeys :: "jsval \<Rightarrow> error + jsval" where
  "camelToSnakeCaseKeys obj =
     (case Object_entries obj of
        Inl e \<Rightarrow> Inl e
      | Inr entries \<Rightarrow>
          forEach (\<lambda>(k, v) converted.
                     let convertedKey = camelToSnakeCaseString k in
                     if typeof v = ''object'' \<and> v \<noteq> JNull \<and> \<not> instanceof_Date v
                     then (case camelToSnakeCaseKeys v of
                             Inl e \<Rightarrow> Inl e
                           | Inr c \<Rightarrow> Inr (assign converted convertedKey c))
                     else Inr (assign converted convertedKey v))
            entries (JObj []))"
  by pat_completeness auto
termination
  by (relation "measure size") (auto intro: Object_entries_smaller)

declare camelToSnakeCaseKeys.simps [simp del]

function snakeToCamelCaseKeys :: "jsval \<Rightarrow> error + jsval" where
  "snakeToCamelCaseKeys obj =
     (case Object_entries obj of
        Inl e \<Rightarrow> Inl e
      | Inr entries \<Rightarrow>
          forEach (\<lambda>(k, v) converted.
                     let convertedKey = snakeToCamelCaseString k in
                     if typeof v = ''object'' \<and> v \<noteq> JNull \<and> \<not> instanceof_Date v
                     then (case snakeToCamelCaseKeys v of
                             Inl e \<Rightarrow> Inl e
                           | Inr c \<Rightarrow> Inr (assign converted convertedKey c))
                     else Inr (assign converted convertedKey v))
            entries (JObj []))"
  by pat_completeness auto
termination
  by (relation "measure size") (auto intro: Object_entries_smaller)

declare snakeToCamelCaseKeys.simps [simp del]

text \<open>The subset of strings the spec's round-trip property is stated for: lowercase
  letters, digits and underscores, no two underscores in a row and no underscore next to a
  digit. This predicate follows the spec's words; it is not part of the source.\<close>

fun underscores_single_away_from_digits :: "string \<Rightarrow> bool" where
  "underscores_single_away_from_digits (c # d # cs) =
     (\<not> (c = CHR ''_'' \<and> d = CHR ''_'') \<and> \<not> (c = CHR ''_'' \<and> is_digit d) \<and>
      \<not> (is_digit c \<and> d = CHR ''_'') \<and> underscores_single_away_from_digits (d # cs))"
| "underscores_single_away_from_digits cs = True"

definition supported_subset :: "string \<Rightarrow> bool" where
  "supported_subset s \<longleftrightarrow>
     list_all (\<lambda>c. is_lower c \<or> is_digit c \<or> c = CHR ''_'') s \<and>
     underscores_single_away_from_digits s"

text \<open>Some underscore of the string is immediately followed by a lowercase letter.\<close>

fun underscore_before_lower :: "string \<Rightarrow> bool" where
  "underscore_before_lower (c # d # cs) =
     ((c = CHR ''_'' \<and> is_lower d) \<or> underscore_before_lower (d # cs))"
| "underscore_before_lower cs = False"

subsection \<open>The WHERE fragment (lines 51-160)\<close>

definition COMPARISON_OPERATORS_MAP :: "(string \<times> string) list" where
  "COMPARISON_OPERATORS_MAP =
     [(''eq'', ''=''),
      (''neq'', ''<>''),
      (''lt'', ''<''),
      (''lte'', ''<=''),
      (''gt'', ''>''),
      (''gte'', ''>=''),
      (''like'', ''LIKE''),
      (''notLike'', ''NOT LIKE''),
      (''ilike'', ''ILIKE''),
      (''notIlike'', ''NOT ILIKE''),
      (''in'', ''IN''),
      (''notIn'', ''NOT IN''),
      (''isNull'', ''IS NULL''),
      (''isNotNull'', ''IS NOT NULL'')]"

text \<open>The table is an object literal, so a property read that misses the fourteen own entries
  goes on to \<open>Object.prototype\<close>. Each inherited value is truthy (a built-in function, or
  for \<open>__proto__\<close> the prototype object) and is identical to no string; the second component
  is the text a template literal prints for it on V8.\<close>

definition Object_prototype_properties :: "(string \<times> string) list" where
  "Object_prototype_properties =
     [(''constructor'', ''function Object() { [native code] }''),
      (''__defineGetter__'', ''function __defineGetter__() { [native code] }''),
      (''__defineSetter__'', ''function __defineSetter__() { [native code] }''),
      (''hasOwnProperty'', ''function hasOwnProperty() { [native code] }''),
      (''__lookupGetter__'', ''function __lookupGetter__() { [native code] }''),
      (''__lookupSetter__'', ''function __lookupSetter__() { [native code] }''),
      (''isPrototypeOf'', ''function isPrototypeOf() { [native code] }''),
      (''propertyIsEnumerable'', ''function propertyIsEnumerable() { [native code] }''),
      (''toString'', ''function toString() { [native code] }''),
      (''valueOf'', ''function valueOf() { [native code] }''),
      (''__proto__'', ''[object Object]''),
      (''toLocaleString'', ''function toLocaleString() { [native code] }'')]"

text \<open>\<open>COMPARISON_OPERATORS_MAP[token]\<close>; \<open>None\<close> is \<open>undefined\<close>.\<close>

definition operator_lookup :: "string \<Rightarrow> string option" where
  "operator_lookup token =
     (case map_of COMPARISON_OPERATORS_MAP token of
        Some operator \<Rightarrow> Some operator
      | None \<Rightarrow> map_of Object_prototype_properties token)"

text \<open>Lines 124-134 of the callback: the field and the comparison operator of a key.
  \<open>k.split(":")\<close> splits at every colon, and the operator token is \<open>tokens[1]\<close>.\<close>

definition resolveKey :: "string \<Rightarrow> error + (string \<times> string)" where
  "resolveKey k =
     (if CHR '':'' \<in> set k then
        (case split CHR '':'' k of
           field # token # _ \<Rightarrow>
             (case operator_lookup token of
                None \<Rightarrow> Inl InvalidOperator
              | Some comparisonOperator \<Rightarrow> Inr (field, comparisonOperator))
         | _ \<Rightarrow> Inl InvalidOperator)
      else Inr (k, ''=''))"

text \<open>Lines 136-156 of the callback, on the state \<open>(lines, params)\<close>. \<open>(v as string).split\<close>
  is a cast for the type checker only: at run time any value but a string has no \<open>split\<close>
  method and the call throws. The sums \<open>params.length + paramsOffset\<close> and
  \<open>params.length + paramsOffset + i + 1\<close> are sums of doubles in the source and of integers
  here: they agree as long as the offset and the results are safe integers.\<close>

definition whereEntry ::
  "int \<Rightarrow> string \<times> jsval \<Rightarrow> string list \<times> jsval list \<Rightarrow> error + string list \<times> jsval list" where
  "whereEntry paramsOffset entry state =
     (case entry of (k, v) \<Rightarrow> case state of (lines, params) \<Rightarrow>
        (case resolveKey k of
           Inl e \<Rightarrow> Inl e
         | Inr (field, comparisonOperator) \<Rightarrow>
             if comparisonOperator = ''IS NULL'' \<or> comparisonOperator = ''IS NOT NULL'' then
               Inr (lines @ [camelToSnakeCaseString field @ '' '' @ comparisonOperator], params)
             else if comparisonOperator = ''IN'' \<or> comparisonOperator = ''NOT IN'' then
               (case v of
                  JStr s \<Rightarrow>
                    let arrayParam = split CHR '','' s in
                    Inr (lines @
                           [camelToSnakeCaseString field @ '' '' @ comparisonOperator @ '' ('' @
                            join '', ''
                              (map (\<lambda>i. ''$'' @ Number_toString
                                      (int (length params) + paramsOffset + int i + 1))
                                 [0..<length arrayParam]) @
                            '')''],
                         params @ [JArr (map JStr arrayParam)])
                | _ \<Rightarrow> Inl TypeError)
             else
               let params' = params @ [v] in
               Inr (lines @
                      [camelToSnakeCaseString field @ '' '' @ comparisonOperator @ '' $'' @
                       Number_toString (int (length params') + paramsOffset)],
                    params')))"

record GetParamsForWhereOutput =
  whereSegment :: string
  whereParams :: "jsval list"

definition getWhereParams :: "(string \<times> jsval) list \<Rightarrow> int \<Rightarrow> error + GetParamsForWhereOutput" where
  "getWhereParams whereParamsIn paramsOffset =
     (case forEach (whereEntry paramsOffset) whereParamsIn ([], []) of
        Inl e \<Rightarrow> Inl e
      | Inr (lines, params) \<Rightarrow>
          Inr \<lparr>whereSegment = join ''\<newline>AND\<newline>'' lines, whereParams = params\<rparr>)"

text \<open>The positional placeholders of a text, in order of occurrence: each \<open>$\<close> that is
  directly followed by digits, read as a number.\<close>

definition digits_value :: "string \<Rightarrow> nat" where
  "digits_value ds = foldl (\<lambda>a c. 10 * a + ((of_char c :: nat) - 48)) 0 ds"

fun placeholders :: "string \<Rightarrow> nat list" where
  "placeholders [] = []"
| "placeholders (c # cs) =
     (if c = CHR ''$'' \<and> takeWhile is_digit cs \<noteq> []
      then digits_value (takeWhile is_digit cs) # placeholders cs
      else placeholders cs)"

subsection \<open>The INSERT fragment (lines 162-194)\<close>



subsection \<open>Array objects (lines 221-234)\<close>

text \<open>\<open>parseInt\<close> with no radix: leading white space, a sign, an optional \<open>0x\<close> prefix, then
  the longest run of digits of the radix; \<open>None\<close> is \<open>NaN\<close>. The value is the exact integer,
  which is the number of the source as long as it is a safe integer.\<close>

definition is_whitespace :: "char \<Rightarrow> bool" where
  "is_whitespace c \<longleftrightarrow> (of_char c :: nat) \<in> {9, 10, 11, 12, 13, 32, 160}"

definition digit_value :: "char \<Rightarrow> nat" where
  "digit_value c =
     (let n = (of_char c :: nat) in
      if 48 \<le> n \<and> n \<le> 57 then n - 48
      else if 97 \<le> n \<and> n \<le> 122 then n - 87
      else if 65 \<le> n \<and> n \<le> 90 then n - 55
      else 36)"

definition parseInt :: "string \<Rightarrow> int option" where
  "parseInt str =
     (let s = dropWhile is_whitespace str;
          sign = (case s of c # _ \<Rightarrow> if c = CHR ''-'' then - 1 else 1 | [] \<Rightarrow> (1 :: int));
          s = (case s of c # r \<Rightarrow> if c = CHR ''-'' \<or> c = CHR ''+'' then r else s | [] \<Rightarrow> s);
          hex = (case s of c # d # _ \<Rightarrow> c = CHR ''0'' \<and> (d = CHR ''x'' \<or> d = CHR ''X'') | _ \<Rightarrow> False);
          radix = (if hex then 16 else 10);
          s = (if hex then drop 2 s else s);
          z = takeWhile (\<lambda>c. digit_value c < radix) s
      in if z = [] then None
         else Some (sign * int (foldl (\<lambda>a c. radix * a + digit_value c) 0 z)))"

text \<open>What \<open>String\<close> makes of a number; the default comparison of \<open>sort\<close> compares these
  texts by code units.\<close>

definition String_of_number :: "int option \<Rightarrow> string" where
  "String_of_number n = (case n of None \<Rightarrow> ''NaN'' | Some i \<Rightarrow> Number_toString i)"

text \<open>\<open>arrayObject[stringKey]\<close> is \<open>None\<close> where the object has no such key
  (\<open>undefined\<close>). \<open>sort()\<close> is called without a comparison function.\<close>

definition arrayObjectToArray :: "(string \<times> 'a) list \<Rightarrow> 'a option list" where
  "arrayObjectToArray arrayObject =
     (let stringKeys = map fst arrayObject;
          stringKeys = map String_of_number
                         (sort_key String_of_number (map parseInt stringKeys))
      in map (\<lambda>stringKey. map_of arrayObject stringKey) stringKeys)"

subsection \<open>Notions used to state the properties\<close>

text \<open>These follow the words of the spec, not the source. The operator token of a key is
  the text between its first colon and the next one (or the end).\<close>

definition operatorToken :: "string \<Rightarrow> string" where
  "operatorToken k =
     takeWhile (\<lambda>c. c \<noteq> CHR '':'') (drop 1 (dropWhile (\<lambda>c. c \<noteq> CHR '':'') k))"

definition invalid_operator_key :: "string \<Rightarrow> bool" where
  "invalid_operator_key k \<longleftrightarrow>
     CHR '':'' \<in> set k \<and>
     operatorToken k \<notin> fst ` set COMPARISON_OPERATORS_MAP \<and>
     operatorToken k \<notin> fst ` set Object_prototype_properties"

definition list_operator_without_string :: "string \<times> jsval \<Rightarrow> bool" where
  "list_operator_without_string entry =
     (case entry of (k, v) \<Rightarrow>
        (case resolveKey k of
           Inr (field, comparisonOperator) \<Rightarrow>
             (comparisonOperator = ''IN'' \<or> comparisonOperator = ''NOT IN'') \<and>
             (case v of JStr _ \<Rightarrow> False | _ \<Rightarrow> True)
         | Inl _ \<Rightarrow> False))"

definition entry_raises :: "string \<times> jsval \<Rightarrow> bool" where
  "entry_raises entry \<longleftrightarrow> invalid_operator_key (fst entry) \<or> list_operator_without_string entry"

text \<open>The spec's condition for the error, with the operator token read as above; the keys
  whose operator token is found on the prototype of the table; and the entries at which the
  call fails when no key is of that kind.\<close>

definition unknown_operator_key :: "string \<Rightarrow> bool" where
  "unknown_operator_key k \<longleftrightarrow>
     CHR '':'' \<in> set k \<and> operatorToken k \<notin> fst ` set COMPARISON_OPERATORS_MAP"

definition inherited_operator_key :: "string \<Rightarrow> bool" where
  "inherited_operator_key k \<longleftrightarrow>
     CHR '':'' \<in> set k \<and> operatorToken k \<in> fst ` set Object_prototype_properties"

definition entry_fails :: "string \<times> jsval \<Rightarrow> bool" where
  "entry_fails entry \<longleftrightarrow>
     unknown_operator_key (fst entry) \<or> list_operator_without_string entry"

text \<open>Snake case in the words of the spec: every uppercase letter is replaced by an
  underscore followed by its lowercase form.\<close>

definition snake_case :: "string \<Rightarrow> string" where
  "snake_case s = concat (map (\<lambda>c. if is_upper c then [CHR ''_'', toLowerCase c] else [c]) s)"

text \<open>The kind of operator a key resolves to, and the line the spec describes for an entry:
  \<open>count\<close> is the running parameter count, the entry itself included.\<close>

definition scalar_operator_key :: "string \<Rightarrow> bool" where
  "scalar_operator_key k =
     (case resolveKey k of
        Inr (field, comparisonOperator) \<Rightarrow>
          comparisonOperator \<notin> {''IS NULL'', ''IS NOT NULL'', ''IN'', ''NOT IN''}
      | Inl _ \<Rightarrow> False)"

definition list_operator_key :: "string \<Rightarrow> bool" where
  "list_operator_key k =
     (case resolveKey k of
        Inr (field, comparisonOperator) \<Rightarrow> comparisonOperator \<in> {''IN'', ''NOT IN''}
      | Inl _ \<Rightarrow> False)"

definition null_operator_key :: "string \<Rightarrow> bool" where
  "null_operator_key k =
     (case resolveKey k of
        Inr (field, comparisonOperator) \<Rightarrow> comparisonOperator \<in> {''IS NULL'', ''IS NOT NULL''}
      | Inl _ \<Rightarrow> False)"

text \<open>The numbers of a run of \<open>getWhereParams\<close>. An entry pushes at most one parameter, and a
  list entry adds to the count of the parameters the index of a piece and one: every number
  that the run over \<open>es\<close> with offset \<open>p\<close> computes lies between \<open>p\<close> and \<open>p\<close> plus the number of
  entries plus the number of pieces of the list entries. The sums of the source are exact
  when both are safe integers.\<close>

definition list_pieces :: "string \<times> jsval \<Rightarrow> nat" where
  "list_pieces e =
     (case e of
        (k, JStr s) \<Rightarrow> if list_operator_key k then length (split CHR '','' s) else 0
      | _ \<Rightarrow> 0)"

definition exact_numbers :: "(string \<times> jsval) list \<Rightarrow> int \<Rightarrow> bool" where
  "exact_numbers es p \<longleftrightarrow>
     safe_integer p \<and>
     safe_integer (p + int (length es) + int (sum_list (map list_pieces es)))"

definition scalarLine :: "int \<Rightarrow> nat \<Rightarrow> string \<Rightarrow> string" where
  "scalarLine paramsOffset count k =
     (case resolveKey k of
        Inr (field, comparisonOperator) \<Rightarrow>
          snake_case field @ '' '' @ comparisonOperator @ '' $'' @
          Number_toString (int count + paramsOffset)
      | Inl _ \<Rightarrow> [])"

definition listLine :: "int \<Rightarrow> nat \<Rightarrow> string \<Rightarrow> string list \<Rightarrow> string" where
  "listLine paramsOffset count k items =
     (case resolveKey k of
        Inr (field, comparisonOperator) \<Rightarrow>
          snake_case field @ '' '' @ comparisonOperator @ '' ('' @
          join '', ''
            (map (\<lambda>i. ''$'' @ Number_toString (int count + paramsOffset + int i))
               [0..<length items]) @
          '')''
      | Inl _ \<Rightarrow> [])"

text \<open>The test that guards the recursive call of the key conversions: a value that is an
  object for \<open>typeof\<close>, is not \<open>null\<close> and is not a \<open>Date\<close>.\<close>

definition is_container :: "jsval \<Rightarrow> bool" where
  "is_container v \<longleftrightarrow> typeof v = ''object'' \<and> v \<noteq> JNull \<and> \<not> instanceof_Date v"

text \<open>An array \<open>xs\<close> seen as a mapping \<open>c\<close>: the keys of \<open>c\<close> are the indices of \<open>xs\<close>, in
  order, and \<open>c\<close> holds under each index the element, converted by \<open>rec\<close> where the element
  passes the guard and unchanged otherwise.\<close>

definition array_as_mapping ::
  "(jsval \<Rightarrow> error + jsval) \<Rightarrow> jsval list \<Rightarrow> (string \<times> jsval) list \<Rightarrow> bool" where
  "array_as_mapping rec xs c \<longleftrightarrow>
     map fst c = map (\<lambda>i. Number_toString (int i)) [0..<length xs] \<and>
     list_all (\<lambda>i. if is_container (xs ! i) then rec (xs ! i) = Inr (snd (c ! i))
                    else snd (c ! i) = xs ! i)
       [0..<length xs]"

text \<open>For the proofs only: the value the callback of the key conversions assigns for an
  entry, the callback with the string conversion and the recursive call as parameters, the
  same as a function that cannot fail, and the values that are plain objects.\<close>

definition converted_value :: "(jsval \<Rightarrow> error + jsval) \<Rightarrow> jsval \<Rightarrow> jsval" where
  "converted_value rec v =
     (if is_container v then (case rec v of Inr c \<Rightarrow> c | Inl _ \<Rightarrow> JUndefined) else v)"

definition keysCallback ::
  "(string \<Rightarrow> string) \<Rightarrow> (jsval \<Rightarrow> error + jsval) \<Rightarrow> string \<times> jsval \<Rightarrow>
   jsval \<Rightarrow> error + jsval" where
  "keysCallback conv rec =
     (\<lambda>(k, v) converted.
        let convertedKey = conv k in
        if typeof v = ''object'' \<and> v \<noteq> JNull \<and> \<not> instanceof_Date v
        then (case rec v of
                Inl e \<Rightarrow> Inl e
              | Inr c \<Rightarrow> Inr (assign converted convertedKey c))
        else Inr (assign converted convertedKey v))"

definition keysStep ::
  "(string \<Rightarrow> string) \<Rightarrow> (jsval \<Rightarrow> error + jsval) \<Rightarrow> string \<times> jsval \<Rightarrow> jsval \<Rightarrow> jsval" where
  "keysStep conv rec = (\<lambda>(k, v) converted. assign converted (conv k) (converted_value rec v))"

definition is_plain_object :: "jsval \<Rightarrow> bool" where
  "is_plain_object v = (case v of JObj _ \<Rightarrow> True | JObjP _ _ \<Rightarrow> True | _ \<Rightarrow> False)"

section \<open>Properties\<close>

subsection \<open>The string conversions\<close>

lemma of_char_minus32: "97 \<le> (of_char d :: nat) \<Longrightarrow> (of_char d :: nat) \<le> 122
    \<Longrightarrow> (of_char (char_of ((of_char d :: nat) - 32)) :: nat) = of_char d - 32"
  by (simp add: mod_less)

lemma of_char_plus32: "65 \<le> (of_char d :: nat) \<Longrightarrow> (of_char d :: nat) \<le> 90
    \<Longrightarrow> (of_char (char_of ((of_char d :: nat) + 32)) :: nat) = of_char d + 32"
  by simp

lemma upper_of_lower: "is_lower d \<Longrightarrow> is_upper (toUpperCase d)"
proof -
  assume l: "is_lower d"
  then have "(of_char (toUpperCase d) :: nat) = of_char d - 32"
    by (simp add: is_lower_def toUpperCase_def of_char_minus32 del: of_char_of)
  with l show ?thesis unfolding is_lower_def is_upper_def by arith
qed

lemma lower_of_upper: "is_upper d \<Longrightarrow> is_lower (toLowerCase d)"
proof -
  assume u: "is_upper d"
  then have "(of_char (toLowerCase d) :: nat) = of_char d + 32"
    by (simp add: is_upper_def toLowerCase_def of_char_plus32 del: of_char_of)
  with u show ?thesis unfolding is_lower_def is_upper_def by arith
qed

lemma lower_upper_id: "is_lower d \<Longrightarrow> toLowerCase (toUpperCase d) = d"
proof -
  assume l: "is_lower d"
  then have n: "(of_char (toUpperCase d) :: nat) = of_char d - 32" and "32 \<le> (of_char d :: nat)"
    by (simp_all add: is_lower_def toUpperCase_def of_char_minus32 del: of_char_of)
  then have "char_of ((of_char (toUpperCase d) :: nat) + 32) = d"
    by simp
  with upper_of_lower [OF l] show ?thesis by (simp add: toLowerCase_def)
qed

lemma upper_lower_id: "is_upper d \<Longrightarrow> toUpperCase (toLowerCase d) = d"
proof -
  assume u: "is_upper d"
  then have n: "(of_char (toLowerCase d) :: nat) = of_char d + 32"
    by (simp add: is_upper_def toLowerCase_def of_char_plus32 del: of_char_of)
  then have "char_of ((of_char (toLowerCase d) :: nat) - 32) = d"
    by simp
  with lower_of_upper [OF u] show ?thesis by (simp add: toUpperCase_def)
qed

lemma underscore_not_lower: "\<not> is_lower CHR ''_''"
  by (simp add: is_lower_def)

lemma underscore_not_upper: "\<not> is_upper CHR ''_''"
  by (simp add: is_upper_def)

lemma not_upper_supported: "supported_subset s \<Longrightarrow> list_all (\<lambda>c. \<not> is_upper c) s"
  unfolding supported_subset_def
  by (auto simp: list_all_iff is_upper_def is_lower_def is_digit_def)

lemma camelToSnake_no_upper: "list_all (\<lambda>c. \<not> is_upper c) s \<Longrightarrow> camelToSnakeCaseString s = s"
  by (induction s) auto

lemma camel_of_snake: "list_all (\<lambda>c. \<not> is_upper c) s \<Longrightarrow> camelToSnakeCaseString (snakeToCamelCaseString s) = s"
  by (induction s rule: snakeToCamelCaseString.induct)
     (auto simp: upper_of_lower lower_upper_id)

lemma length_snakeToCamel: "length (snakeToCamelCaseString s) \<le> length s"
  by (induction s rule: snakeToCamelCaseString.induct) auto

lemma length_snakeToCamel_less:
  "underscore_before_lower s \<Longrightarrow> length (snakeToCamelCaseString s) < length s"
proof (induction s rule: snakeToCamelCaseString.induct)
  case (1 c d cs)
  then show ?case using length_snakeToCamel [of cs] by auto
qed auto

lemma snakeToCamel_fixed: "\<not> underscore_before_lower s \<Longrightarrow> snakeToCamelCaseString s = s"
  by (induction s rule: snakeToCamelCaseString.induct) auto

lemma snakeToCamel_fixed_iff: "snakeToCamelCaseString s = s \<longleftrightarrow> \<not> underscore_before_lower s"
  using length_snakeToCamel_less [of s] snakeToCamel_fixed [of s] by auto

lemma snake_of_camel_general:
  "\<not> underscore_before_lower s \<Longrightarrow> snakeToCamelCaseString (camelToSnakeCaseString s) = s"
  by (induction s rule: underscore_before_lower.induct)
     (auto simp: lower_of_upper upper_lower_id underscore_not_upper underscore_not_lower)

text \<open>
  C3 (as stated in the spec): for every string of the supported subset, converting to snake
  case and then to camel case gives the string back. The string \<open>a_b\<close> is in the subset, is
  left alone by \<open>camelToSnakeCaseString\<close>, and comes back as \<open>aB\<close>.
\<close>

theorem roundtrip_snake_of_camel_counterexample:
  "supported_subset ''a_b'' \<and>
   snakeToCamelCaseString (camelToSnakeCaseString ''a_b'') = ''aB'' \<and>
   snakeToCamelCaseString (camelToSnakeCaseString ''a_b'') \<noteq> ''a_b''"
  by code_simp

text \<open>
  C3 (amended): for every string \<open>s\<close> of the supported subset the round trip in the other
  order, \<open>camelToSnakeCaseString (snakeToCamelCaseString s)\<close>, gives \<open>s\<close> back; the round trip
  in the order the spec writes gives \<open>s\<close> back exactly when no underscore of \<open>s\<close> is
  immediately followed by a lowercase letter.
\<close>

theorem roundtrip_on_supported_subset:
  assumes "supported_subset s"
  shows "camelToSnakeCaseString (snakeToCamelCaseString s) = s \<and>
         (snakeToCamelCaseString (camelToSnakeCaseString s) = s \<longleftrightarrow>
            \<not> underscore_before_lower s)"
  using assms not_upper_supported [OF assms]
  by (simp add: camel_of_snake camelToSnake_no_upper snakeToCamel_fixed_iff)

text \<open>C3, witness: the amended round trip at \<open>first_name\<close>.\<close>

theorem roundtrip_on_supported_subset_witness:
  "supported_subset ''first_name'' \<and>
   camelToSnakeCaseString (snakeToCamelCaseString ''first_name'') = ''first_name'' \<and>
   (snakeToCamelCaseString (camelToSnakeCaseString ''first_name'') = ''first_name'' \<longleftrightarrow>
      \<not> underscore_before_lower ''first_name'')"
proof -
  have s: "supported_subset ''first_name''"
    by code_simp
  show ?thesis
    using s roundtrip_on_supported_subset [OF s] by simp
qed

subsection \<open>The key conversions\<close>

text \<open>Both conversions return on everything but \<open>null\<close> and \<open>undefined\<close>, and their result
  is the fold of the assignments over the entries, starting from the empty object.\<close>

lemma is_container_defined: "is_container v \<Longrightarrow> v \<noteq> JNull \<and> v \<noteq> JUndefined"
  by (auto simp: is_container_def typeof_def)

lemma is_container_JArr: "is_container (JArr xs)"
  by (simp add: is_container_def typeof_def)

lemma not_container_JNull: "\<not> is_container JNull"
  by (simp add: is_container_def)

lemma camelToSnakeCaseKeys_unfold:
  "camelToSnakeCaseKeys obj =
     (case Object_entries obj of
        Inl e \<Rightarrow> Inl e
      | Inr entries \<Rightarrow>
          forEach (keysCallback camelToSnakeCaseString camelToSnakeCaseKeys) entries (JObj []))"
  unfolding keysCallback_def by (rule camelToSnakeCaseKeys.simps)

lemma snakeToCamelCaseKeys_unfold:
  "snakeToCamelCaseKeys obj =
     (case Object_entries obj of
        Inl e \<Rightarrow> Inl e
      | Inr entries \<Rightarrow>
          forEach (keysCallback snakeToCamelCaseString snakeToCamelCaseKeys) entries (JObj []))"
  unfolding keysCallback_def by (rule snakeToCamelCaseKeys.simps)

lemma keysCallback_value:
  assumes "is_container v \<longrightarrow> (\<exists>c. rec v = Inr c)"
  shows "keysCallback conv rec (k, v) acc = Inr (keysStep conv rec (k, v) acc)"
  using assms
  by (auto simp: keysCallback_def keysStep_def converted_value_def is_container_def Let_def)

lemma forEach_keysCallback:
  assumes "\<forall>(k, v) \<in> set es. is_container v \<longrightarrow> (\<exists>c. rec v = Inr c)"
  shows "forEach (keysCallback conv rec) es acc = Inr (fold (keysStep conv rec) es acc)"
  using assms
proof (induction es arbitrary: acc)
  case Nil
  show ?case by simp
next
  case (Cons e es)
  obtain k v where e: "e = (k, v)" by (cases e)
  from Cons.prems have v: "is_container v \<longrightarrow> (\<exists>c. rec v = Inr c)"
    and rest: "\<forall>(k, v) \<in> set es. is_container v \<longrightarrow> (\<exists>c. rec v = Inr c)"
    by (auto simp: e)
  show ?case
    using v by (simp add: e keysCallback_value [where v = v and rec = rec] Cons.IH [OF rest])
qed

lemma Object_entries_defined:
  "v \<noteq> JNull \<Longrightarrow> v \<noteq> JUndefined \<Longrightarrow> \<exists>es. Object_entries v = Inr es"
  by (cases v) (simp_all add: Object_entries_def)

lemma camelToSnakeCaseKeys_total:
  "v \<noteq> JNull \<Longrightarrow> v \<noteq> JUndefined \<Longrightarrow> \<exists>c. camelToSnakeCaseKeys v = Inr c"
proof (induction v rule: camelToSnakeCaseKeys.induct)
  case (1 obj)
  from Object_entries_defined [OF "1.prems"] obtain es where es: "Object_entries obj = Inr es" ..
  have "\<forall>(k, v) \<in> set es. is_container v \<longrightarrow> (\<exists>c. camelToSnakeCaseKeys v = Inr c)"
  proof (clarify)
    fix k v
    assume m: "(k, v) \<in> set es" and c: "is_container v"
    from c have "typeof v = ''object'' \<and> v \<noteq> JNull \<and> \<not> instanceof_Date v"
      by (simp add: is_container_def)
    moreover from c have "v \<noteq> JNull" "v \<noteq> JUndefined"
      by (auto dest: is_container_defined)
    ultimately show "\<exists>c. camelToSnakeCaseKeys v = Inr c"
      using "1.IH" [OF es m refl refl] by blast
  qed
  from forEach_keysCallback [OF this]
  show ?case
    by (subst camelToSnakeCaseKeys_unfold) (simp add: es)
qed

lemma snakeToCamelCaseKeys_total:
  "v \<noteq> JNull \<Longrightarrow> v \<noteq> JUndefined \<Longrightarrow> \<exists>c. snakeToCamelCaseKeys v = Inr c"
proof (induction v rule: snakeToCamelCaseKeys.induct)
  case (1 obj)
  from Object_entries_defined [OF "1.prems"] obtain es where es: "Object_entries obj = Inr es" ..
  have "\<forall>(k, v) \<in> set es. is_container v \<longrightarrow> (\<exists>c. snakeToCamelCaseKeys v = Inr c)"
  proof (clarify)
    fix k v
    assume m: "(k, v) \<in> set es" and c: "is_container v"
    from c have "typeof v = ''object'' \<and> v \<noteq> JNull \<and> \<not> instanceof_Date v"
      by (simp add: is_container_def)
    moreover from c have "v \<noteq> JNull" "v \<noteq> JUndefined"
      by (auto dest: is_container_defined)
    ultimately show "\<exists>c. snakeToCamelCaseKeys v = Inr c"
      using "1.IH" [OF es m refl refl] by blast
  qed
  from forEach_keysCallback [OF this]
  show ?case
    by (subst snakeToCamelCaseKeys_unfold) (simp add: es)
qed

lemma container_total:
  "is_container v \<Longrightarrow> \<exists>c. camelToSnakeCaseKeys v = Inr c"
  "is_container v \<Longrightarrow> \<exists>c. snakeToCamelCaseKeys v = Inr c"
  using camelToSnakeCaseKeys_total [of v] snakeToCamelCaseKeys_total [of v]
  by (auto dest: is_container_defined)

lemma camelToSnakeCaseKeys_fold:
  "Object_entries obj = Inr es \<Longrightarrow>
   camelToSnakeCaseKeys obj =
     Inr (fold (keysStep camelToSnakeCaseString camelToSnakeCaseKeys) es (JObj []))"
  by (subst camelToSnakeCaseKeys_unfold)
     (simp add: forEach_keysCallback container_total(1))

lemma snakeToCamelCaseKeys_fold:
  "Object_entries obj = Inr es \<Longrightarrow>
   snakeToCamelCaseKeys obj =
     Inr (fold (keysStep snakeToCamelCaseString snakeToCamelCaseKeys) es (JObj []))"
  by (subst snakeToCamelCaseKeys_unfold)
     (simp add: forEach_keysCallback container_total(2))

text \<open>What an assignment does to the own entries.\<close>

lemma assign_plain: "is_plain_object obj \<Longrightarrow> is_plain_object (assign obj key v)"
  by (cases obj) (simp_all add: is_plain_object_def)

lemma assign_other:
  "x \<noteq> key \<Longrightarrow> map_of (own_entries (assign obj key v)) x = map_of (own_entries obj) x"
  by (cases obj) (simp_all add: update_conv')

lemma assign_entry:
  "is_plain_object obj \<Longrightarrow> key \<noteq> ''__proto__'' \<Longrightarrow>
   own_entries (assign obj key v) = AList.update key v (own_entries obj)"
  by (cases obj) (simp_all add: is_plain_object_def)

lemma assign_JObj: "key \<noteq> ''__proto__'' \<Longrightarrow> assign (JObj es) key v = JObj (AList.update key v es)"
  by simp

lemma fold_keysStep_plain:
  "is_plain_object acc \<Longrightarrow> is_plain_object (fold (keysStep conv rec) es acc)"
  by (induction es arbitrary: acc) (auto simp: keysStep_def assign_plain)

lemma fold_keysStep_other:
  "x \<notin> conv ` fst ` set es \<Longrightarrow>
   map_of (own_entries (fold (keysStep conv rec) es acc)) x = map_of (own_entries acc) x"
  by (induction es arbitrary: acc) (auto simp: keysStep_def assign_other)

lemma fold_keysStep_at:
  assumes plain: "is_plain_object acc"
    and key: "conv k \<noteq> ''__proto__''"
    and later: "conv k \<notin> conv ` fst ` set post"
  shows "map_of (own_entries (fold (keysStep conv rec) (pre @ (k, v) # post) acc)) (conv k) =
         Some (converted_value rec v)"
proof -
  have "is_plain_object (fold (keysStep conv rec) pre acc)"
    by (rule fold_keysStep_plain [OF plain])
  then have "map_of (own_entries (keysStep conv rec (k, v) (fold (keysStep conv rec) pre acc)))
               (conv k) = Some (converted_value rec v)"
    by (simp add: keysStep_def assign_entry [OF _ key] update_conv')
  then show ?thesis
    by (simp add: fold_keysStep_other [OF later])
qed

lemma fold_keysStep_JObj:
  "\<forall>k \<in> fst ` set es. conv k \<noteq> ''__proto__'' \<Longrightarrow>
   fold (keysStep conv rec) es (JObj acc) =
     JObj (fold (\<lambda>(k, v). AList.update (conv k) (converted_value rec v)) es acc)"
  by (induction es arbitrary: acc) (auto simp: keysStep_def)

lemma update_fresh: "k \<notin> fst ` set al \<Longrightarrow> AList.update k v al = al @ [(k, v)]"
  by (induction al) auto

lemma fold_update_fresh:
  assumes "distinct (map fst es)" and "\<forall>k \<in> fst ` set es. f k = k"
    and "fst ` set es \<inter> fst ` set acc = {}"
  shows "fold (\<lambda>(k, v). AList.update (f k) (g v)) es acc = acc @ map (\<lambda>(k, v). (k, g v)) es"
  using assms
proof (induction es arbitrary: acc)
  case Nil
  show ?case by simp
next
  case (Cons e es)
  obtain k v where e: "e = (k, v)" by (cases e)
  from Cons.prems have fk: "f k = k" and fresh: "k \<notin> fst ` set acc"
    and d: "distinct (map fst es)" and fx: "\<forall>k \<in> fst ` set es. f k = k"
    and kes: "k \<notin> fst ` set es" and disj: "fst ` set es \<inter> fst ` set acc = {}"
    by (auto simp: e)
  from kes disj have "fst ` set es \<inter> fst ` set (acc @ [(k, g v)]) = {}"
    by auto
  from Cons.IH [OF d fx this] show ?case
    by (simp add: e fk update_fresh [OF fresh])
qed

lemma digits_value_snoc:
  "digits_value (ds @ [c]) = 10 * digits_value ds + ((of_char c :: nat) - 48)"
  by (simp add: digits_value_def)

lemma digits_of_small: "n < 10 \<Longrightarrow> digits_of n = [char_of (48 + n)]"
  by (subst digits_of.simps) simp

lemma digits_value_small: "n < 10 \<Longrightarrow> digits_value [char_of (48 + n)] = n"
proof -
  assume "n < 10"
  then have "(of_char (char_of (48 + n)) :: nat) = 48 + n"
    by (simp add: mod_less)
  then show ?thesis
    by (simp add: digits_value_def del: of_char_of)
qed

lemma digits_value_digits_of: "digits_value (digits_of n) = n"
proof (induction n rule: digits_of.induct)
  case (1 n)
  show ?case
  proof (cases "n < 10")
    case True
    then show ?thesis
      by (simp add: digits_of_small digits_value_small)
  next
    case False
    have m: "(of_char (char_of (48 + n mod 10)) :: nat) = 48 + n mod 10"
      by (simp add: mod_less)
    have eq: "digits_of n = digits_of (n div 10) @ [char_of (48 + n mod 10)]"
      using False by (subst digits_of.simps) simp
    from False "1.IH" show ?thesis
      unfolding eq by (simp add: digits_value_snoc m del: of_char_of)
  qed
qed

lemma digits_of_inj: "digits_of m = digits_of n \<Longrightarrow> m = n"
  by (metis digits_value_digits_of)

lemma digits_of_digits: "list_all is_digit (digits_of n)"
proof (induction n rule: digits_of.induct)
  case (1 n)
  have d: "is_digit (char_of (48 + k))" if "k < 10" for k :: nat
    using that by (simp add: is_digit_def mod_less)
  show ?case
  proof (cases "n < 10")
    case True
    then show ?thesis by (subst digits_of.simps) (simp add: d)
  next
    case False
    with "1.IH" show ?thesis by (subst digits_of.simps) (simp add: d)
  qed
qed

lemma index_text: "Number_toString (int i) = digits_of i"
  by (simp add: Number_toString_def)

lemma camelToSnake_digits: "camelToSnakeCaseString (digits_of n) = digits_of n"
proof -
  have "list_all (\<lambda>c. \<not> is_upper c) (digits_of n)"
    using digits_of_digits [of n] by (auto simp: list_all_iff is_digit_def is_upper_def)
  then show ?thesis by (rule camelToSnake_no_upper)
qed

lemma no_underscore_fixed: "CHR ''_'' \<notin> set s \<Longrightarrow> \<not> underscore_before_lower s"
  by (induction s rule: underscore_before_lower.induct) auto

lemma snakeToCamel_digits: "snakeToCamelCaseString (digits_of n) = digits_of n"
proof -
  have "CHR ''_'' \<notin> set (digits_of n)"
    using digits_of_digits [of n] by (auto simp: list_all_iff is_digit_def)
  then show ?thesis by (intro snakeToCamel_fixed no_underscore_fixed)
qed

lemma array_entries_fold:
  assumes digits: "\<And>n. conv (digits_of n) = digits_of n"
  shows "fold (\<lambda>(k, v). AList.update (conv k) (g v))
           (zip (map (\<lambda>i. Number_toString (int i)) [0..<length xs]) xs) [] =
         zip (map (\<lambda>i. Number_toString (int i)) [0..<length xs]) (map g xs)"
proof -
  let ?idx = "map (\<lambda>i. Number_toString (int i)) [0..<length xs]"
  have fst: "map fst (zip ?idx xs) = ?idx" by simp
  have "distinct ?idx"
    by (auto simp: distinct_map index_text intro!: inj_onI dest: digits_of_inj)
  then have d: "distinct (map fst (zip ?idx xs))" by (simp only: fst)
  have fx: "\<forall>k \<in> fst ` set (zip ?idx xs). conv k = k"
    by (auto simp: index_text digits dest!: set_zip_leftD)
  have "fold (\<lambda>(k, v). AList.update (conv k) (g v)) (zip ?idx xs) [] =
        [] @ map (\<lambda>(k, v). (k, g v)) (zip ?idx xs)"
    by (rule fold_update_fresh [OF d fx]) simp
  also have "map (\<lambda>(k, v). (k, g v)) (zip ?idx xs) = zip ?idx (map g xs)"
    by (simp add: zip_map2)
  finally show ?thesis by simp
qed

lemma digits_not_proto: "digits_of n \<noteq> ''__proto__''"
proof
  assume "digits_of n = ''__proto__''"
  with digits_of_digits [of n] have "list_all is_digit ''__proto__''" by simp
  then show False by (simp add: is_digit_def)
qed

lemma upper_not_lower: "is_upper c \<Longrightarrow> \<not> is_lower c"
  by (simp add: is_upper_def is_lower_def)

lemma snakeToCamel_head:
  "snakeToCamelCaseString (d # cs) = x # xs \<Longrightarrow> \<not> is_lower d \<Longrightarrow> \<not> is_lower x"
  by (cases cs) (auto simp: upper_of_lower upper_not_lower split: if_splits)

lemma snakeToCamel_no_underscore_before_lower:
  "\<not> underscore_before_lower (snakeToCamelCaseString s)"
proof (induction s rule: snakeToCamelCaseString.induct)
  case (1 c d cs)
  show ?case
  proof (cases "c = CHR ''_'' \<and> is_lower d")
    case True
    then have u: "toUpperCase d \<noteq> CHR ''_''"
      using upper_of_lower [of d] underscore_not_upper by auto
    from True "1.IH"(1) have ih: "\<not> underscore_before_lower (snakeToCamelCaseString cs)"
      by simp
    from True have "snakeToCamelCaseString (c # d # cs) = toUpperCase d # snakeToCamelCaseString cs"
      by simp
    with u ih show ?thesis
      by (cases "snakeToCamelCaseString cs") simp_all
  next
    case False
    with "1.IH"(2) have ih: "\<not> underscore_before_lower (snakeToCamelCaseString (d # cs))"
      by simp
    from False have eq: "snakeToCamelCaseString (c # d # cs) = c # snakeToCamelCaseString (d # cs)"
      by auto
    show ?thesis
    proof (cases "snakeToCamelCaseString (d # cs)")
      case Nil
      with eq show ?thesis by simp
    next
      case (Cons x xs)
      have "\<not> (c = CHR ''_'' \<and> is_lower x)"
      proof
        assume a: "c = CHR ''_'' \<and> is_lower x"
        with False have "\<not> is_lower d" by simp
        from snakeToCamel_head [OF Cons this] a show False by simp
      qed
      with ih Cons eq show ?thesis by simp
    qed
  qed
qed simp_all

lemma snakeToCamel_not_proto: "snakeToCamelCaseString k \<noteq> ''__proto__''"
proof
  assume "snakeToCamelCaseString k = ''__proto__''"
  with snakeToCamel_no_underscore_before_lower [of k]
  have "\<not> underscore_before_lower ''__proto__''" by simp
  then show False by (simp add: is_lower_def)
qed

lemma array_entry_converted:
  assumes fold: "\<And>obj es. Object_entries obj = Inr es \<Longrightarrow>
        rec obj = Inr (fold (keysStep conv rec) es (JObj []))"
    and digits: "\<And>n. conv (digits_of n) = digits_of n"
    and key: "conv k \<noteq> ''__proto__''"
    and later: "conv k \<notin> conv ` fst ` set post"
  shows "\<exists>out c. rec (JObj (pre @ (k, JArr xs) # post)) = Inr out \<and>
           map_of (own_entries out) (conv k) = Some (JObj c) \<and>
           rec (JArr xs) = Inr (JObj c) \<and>
           array_as_mapping rec xs c"
proof -
  define idx where "idx = map (\<lambda>i. Number_toString (int i)) [0..<length xs]"
  define c where "c = zip idx (map (converted_value rec) xs)"
  define out where "out = fold (keysStep conv rec) (pre @ (k, JArr xs) # post) (JObj [])"
  have e: "Object_entries (JArr xs) = Inr (zip idx xs)"
    by (simp add: Object_entries_def idx_def)
  have "\<forall>k \<in> fst ` set (zip idx xs). conv k \<noteq> ''__proto__''"
    by (auto simp: idx_def index_text digits digits_not_proto dest!: set_zip_leftD)
  then have "fold (keysStep conv rec) (zip idx xs) (JObj []) =
      JObj (fold (\<lambda>(k, v). AList.update (conv k) (converted_value rec v)) (zip idx xs) [])"
    by (rule fold_keysStep_JObj)
  then have arr: "rec (JArr xs) = Inr (JObj c)"
    unfolding fold [OF e] c_def idx_def array_entries_fold [OF digits] by simp
  have e': "Object_entries (JObj (pre @ (k, JArr xs) # post)) = Inr (pre @ (k, JArr xs) # post)"
    by (simp add: Object_entries_def)
  have out: "rec (JObj (pre @ (k, JArr xs) # post)) = Inr out"
    unfolding out_def by (rule fold [OF e'])
  have cv: "converted_value rec (JArr xs) = JObj c"
    unfolding converted_value_def arr using is_container_JArr by simp
  have plain: "is_plain_object (JObj [])"
    by (simp add: is_plain_object_def)
  have at: "map_of (own_entries out) (conv k) = Some (JObj c)"
    unfolding out_def cv [symmetric]
    by (rule fold_keysStep_at [OF plain key later])
  have len: "length idx = length xs"
    by (simp add: idx_def)
  have sndc: "snd (c ! i) = converted_value rec (xs ! i)" if "i < length xs" for i
    using that len by (simp add: c_def)
  have elems: "if is_container (xs ! i) then rec (xs ! i) = Inr (snd (c ! i))
               else snd (c ! i) = xs ! i" if i: "i < length xs" for i
  proof (cases "is_container (xs ! i)")
    case True
    then obtain es where "Object_entries (xs ! i) = Inr es"
      using Object_entries_defined [of "xs ! i"] by (auto dest: is_container_defined)
    from fold [OF this] obtain r where r: "rec (xs ! i) = Inr r" ..
    have "converted_value rec (xs ! i) = r"
      unfolding converted_value_def r using True by simp
    with True r sndc [OF i] show ?thesis by simp
  next
    case False
    then have "converted_value rec (xs ! i) = xs ! i"
      by (simp add: converted_value_def)
    with False sndc [OF i] show ?thesis by simp
  qed
  have keys: "map fst c = idx"
    using len by (simp add: c_def)
  have am: "array_as_mapping rec xs c"
    unfolding array_as_mapping_def keys
    using elems by (simp add: list_all_iff idx_def)
  show ?thesis
    by (intro exI [of _ out] exI [of _ c] conjI out at arr am)
qed

lemma null_entry_copied:
  assumes fold: "\<And>obj es. Object_entries obj = Inr es \<Longrightarrow>
        rec obj = Inr (fold (keysStep conv rec) es (JObj []))"
    and key: "conv k \<noteq> ''__proto__''"
    and later: "conv k \<notin> conv ` fst ` set post"
  shows "\<exists>out. rec (JObj (pre @ (k, JNull) # post)) = Inr out \<and>
           map_of (own_entries out) (conv k) = Some JNull"
proof -
  define out where "out = fold (keysStep conv rec) (pre @ (k, JNull) # post) (JObj [])"
  have e: "Object_entries (JObj (pre @ (k, JNull) # post)) = Inr (pre @ (k, JNull) # post)"
    by (simp add: Object_entries_def)
  have out: "rec (JObj (pre @ (k, JNull) # post)) = Inr out"
    unfolding out_def by (rule fold [OF e])
  have cv: "converted_value rec JNull = JNull"
    by (simp add: converted_value_def not_container_JNull)
  have plain: "is_plain_object (JObj [])"
    by (simp add: is_plain_object_def)
  have "map_of (own_entries out) (conv k) = Some (converted_value rec JNull)"
    unfolding out_def by (rule fold_keysStep_at [OF plain key later])
  then have at: "map_of (own_entries out) (conv k) = Some JNull"
    by (simp only: cv)
  show ?thesis
    by (intro exI [of _ out] conjI out at)
qed

text \<open>
  C9 (as stated): in both key conversions an entry whose value is \<open>null\<close> is copied as it is
  under the converted key. Two kinds of input say otherwise. Where the converted key is
  \<open>__proto__\<close>, as it is for the key \<open>_Proto__\<close>, the assignment sets the prototype of the
  result and stores no entry: the result for \<open>{ _Proto__: null, fooBar: 1 }\<close> has the own
  entry \<open>foo_bar\<close> only. Where a later key is converted to the same key the later assignment
  replaces the value: \<open>{ aB: null, a_b: 1 }\<close> gives \<open>{ a_b: 1 }\<close>.
\<close>

theorem null_entries_counterexample:
  "camelToSnakeCaseString ''_Proto__'' = ''__proto__'' \<and>
   camelToSnakeCaseKeys (JObj [(''_Proto__'', JNull), (''fooBar'', JNum 1)]) =
     Inr (JObjP JNull [(''foo_bar'', JNum 1)]) \<and>
   map_of (own_entries (JObjP JNull [(''foo_bar'', JNum 1)])) ''__proto__'' = None \<and>
   camelToSnakeCaseKeys (JObj [(''aB'', JNull), (''a_b'', JNum 1)]) =
     Inr (JObj [(''a_b'', JNum 1)]) \<and>
   snakeToCamelCaseKeys (JObj [(''a_b'', JNull), (''aB'', JNum 1)]) =
     Inr (JObj [(''aB'', JNum 1)])"
  by code_simp

text \<open>
  C9 (amended): in both key conversions \<open>null\<close> is not passed to the recursive call, which
  would throw: both functions return on every value other than \<open>null\<close> and \<open>undefined\<close>,
  whatever it contains. The returned object holds \<open>null\<close> under the converted key of an entry
  whose value is \<open>null\<close>, provided that no later entry is converted to the same key and, for
  \<open>camelToSnakeCaseKeys\<close>, that the converted key is not \<open>__proto__\<close> (\<open>snakeToCamelCaseString\<close>
  never yields that key).
\<close>

theorem null_entries_copied:
  "(v \<noteq> JNull \<and> v \<noteq> JUndefined \<longrightarrow>
      (\<exists>out. camelToSnakeCaseKeys v = Inr out) \<and> (\<exists>out. snakeToCamelCaseKeys v = Inr out)) \<and>
   (camelToSnakeCaseString k \<noteq> ''__proto__'' \<and>
    camelToSnakeCaseString k \<notin> camelToSnakeCaseString ` fst ` set post \<longrightarrow>
      (\<exists>out. camelToSnakeCaseKeys (JObj (pre @ (k, JNull) # post)) = Inr out \<and>
             map_of (own_entries out) (camelToSnakeCaseString k) = Some JNull)) \<and>
   (snakeToCamelCaseString k \<notin> snakeToCamelCaseString ` fst ` set post \<longrightarrow>
      (\<exists>out. snakeToCamelCaseKeys (JObj (pre @ (k, JNull) # post)) = Inr out \<and>
             map_of (own_entries out) (snakeToCamelCaseString k) = Some JNull))"
proof (intro conjI impI)
  assume "v \<noteq> JNull \<and> v \<noteq> JUndefined"
  then show "\<exists>out. camelToSnakeCaseKeys v = Inr out"
    by (intro camelToSnakeCaseKeys_total) simp_all
next
  assume "v \<noteq> JNull \<and> v \<noteq> JUndefined"
  then show "\<exists>out. snakeToCamelCaseKeys v = Inr out"
    by (intro snakeToCamelCaseKeys_total) simp_all
next
  assume "camelToSnakeCaseString k \<noteq> ''__proto__'' \<and>
          camelToSnakeCaseString k \<notin> camelToSnakeCaseString ` fst ` set post"
  then have a: "camelToSnakeCaseString k \<noteq> ''__proto__''"
    and b: "camelToSnakeCaseString k \<notin> camelToSnakeCaseString ` fst ` set post"
    by simp_all
  from a b show "\<exists>out. camelToSnakeCaseKeys (JObj (pre @ (k, JNull) # post)) = Inr out \<and>
             map_of (own_entries out) (camelToSnakeCaseString k) = Some JNull"
    by - (rule null_entry_copied [where rec = camelToSnakeCaseKeys and conv = camelToSnakeCaseString],
          erule camelToSnakeCaseKeys_fold, assumption, assumption)
next
  assume b: "snakeToCamelCaseString k \<notin> snakeToCamelCaseString ` fst ` set post"
  note a = snakeToCamel_not_proto [of k]
  from a b show "\<exists>out. snakeToCamelCaseKeys (JObj (pre @ (k, JNull) # post)) = Inr out \<and>
             map_of (own_entries out) (snakeToCamelCaseString k) = Some JNull"
    by - (rule null_entry_copied [where rec = snakeToCamelCaseKeys and conv = snakeToCamelCaseString],
          erule snakeToCamelCaseKeys_fold, assumption, assumption)
qed

text \<open>C9, witness: a \<open>null\<close> entry between two others, for both conversions.\<close>

theorem null_entries_copied_witness:
  "JObj [(''firstName'', JStr ''Jo''), (''deletedAt'', JNull), (''age'', JNum 5)] \<noteq> JNull \<and>
   JObj [(''firstName'', JStr ''Jo''), (''deletedAt'', JNull), (''age'', JNum 5)] \<noteq> JUndefined \<and>
   camelToSnakeCaseString ''deletedAt'' \<noteq> ''__proto__'' \<and>
   camelToSnakeCaseString ''deletedAt'' \<notin> camelToSnakeCaseString ` fst ` set [(''age'', JNum 5)] \<and>
   camelToSnakeCaseKeys (JObj [(''firstName'', JStr ''Jo''), (''deletedAt'', JNull), (''age'', JNum 5)]) =
     Inr (JObj [(''first_name'', JStr ''Jo''), (''deleted_at'', JNull), (''age'', JNum 5)]) \<and>
   snakeToCamelCaseString ''deleted_at'' \<notin> snakeToCamelCaseString ` fst ` set [(''age'', JNum 5)] \<and>
   snakeToCamelCaseKeys (JObj [(''first_name'', JStr ''Jo''), (''deleted_at'', JNull), (''age'', JNum 5)]) =
     Inr (JObj [(''firstName'', JStr ''Jo''), (''deletedAt'', JNull), (''age'', JNum 5)]) \<and>
   map_of [(''first_name'', JStr ''Jo''), (''deleted_at'', JNull), (''age'', JNum 5)] ''deleted_at'' =
     Some JNull \<and>
   map_of [(''firstName'', JStr ''Jo''), (''deletedAt'', JNull), (''age'', JNum 5)] ''deletedAt'' =
     Some JNull"
proof -
  have d: "JObj [(''firstName'', JStr ''Jo''), (''deletedAt'', JNull), (''age'', JNum 5)] \<noteq> JNull \<and>
           JObj [(''firstName'', JStr ''Jo''), (''deletedAt'', JNull), (''age'', JNum 5)] \<noteq> JUndefined"
    by simp
  have p1: "camelToSnakeCaseString ''deletedAt'' \<noteq> ''__proto__''"
    by code_simp
  have h1: "camelToSnakeCaseString ''deletedAt'' \<notin> camelToSnakeCaseString ` fst ` set [(''age'', JNum 5)]"
    by code_simp
  have h2: "snakeToCamelCaseString ''deleted_at'' \<notin> snakeToCamelCaseString ` fst ` set [(''age'', JNum 5)]"
    by code_simp
  have e1: "camelToSnakeCaseKeys (JObj [(''firstName'', JStr ''Jo''), (''deletedAt'', JNull), (''age'', JNum 5)]) =
     Inr (JObj [(''first_name'', JStr ''Jo''), (''deleted_at'', JNull), (''age'', JNum 5)])"
    by code_simp
  have e2: "snakeToCamelCaseKeys (JObj [(''first_name'', JStr ''Jo''), (''deleted_at'', JNull), (''age'', JNum 5)]) =
     Inr (JObj [(''firstName'', JStr ''Jo''), (''deletedAt'', JNull), (''age'', JNum 5)])"
    by code_simp
  have k1: "camelToSnakeCaseString ''deletedAt'' = ''deleted_at''"
    by code_simp
  have k2: "snakeToCamelCaseString ''deleted_at'' = ''deletedAt''"
    by code_simp
  note t0 = null_entries_copied
      [where v = "JObj [(''firstName'', JStr ''Jo''), (''deletedAt'', JNull), (''age'', JNum 5)]",
       THEN conjunct1, THEN mp, OF d]
  note t1 = null_entries_copied
      [where k = "''deletedAt''" and post = "[(''age'', JNum 5)]"
         and pre = "[(''firstName'', JStr ''Jo'')]",
       THEN conjunct2, THEN conjunct1, THEN mp, OF conjI [OF p1 h1], unfolded append.simps e1 k1]
  note t2 = null_entries_copied
      [where k = "''deleted_at''" and post = "[(''age'', JNum 5)]"
         and pre = "[(''first_name'', JStr ''Jo'')]",
       THEN conjunct2, THEN conjunct2, THEN mp, OF h2, unfolded append.simps e2 k2]
  from t1 have m1:
    "map_of [(''first_name'', JStr ''Jo''), (''deleted_at'', JNull), (''age'', JNum 5)] ''deleted_at'' =
       Some JNull"
    by (elim exE conjE) auto
  from t2 have m2:
    "map_of [(''firstName'', JStr ''Jo''), (''deletedAt'', JNull), (''age'', JNum 5)] ''deletedAt'' =
       Some JNull"
    by (elim exE conjE) auto
  from t0 show ?thesis
    by (intro conjI conjunct1 [OF d] conjunct2 [OF d] p1 h1 h2 e1 e2 m1 m2)
qed

text \<open>What the conversions do with an entry whose value is an array: the array is passed to
  the recursive call, and the returned object holds under the converted key (provided no
  later entry is converted to the same key, and the key is not \<open>__proto__\<close>) a plain mapping
  whose keys are the indices of the array, in order, and whose values are the elements, an
  element that is an object or an array being itself converted.\<close>

lemma array_entries_become_mappings:
  "(camelToSnakeCaseString k \<noteq> ''__proto__'' \<and>
    camelToSnakeCaseString k \<notin> camelToSnakeCaseString ` fst ` set post \<longrightarrow>
      (\<exists>out c. camelToSnakeCaseKeys (JObj (pre @ (k, JArr xs) # post)) = Inr out \<and>
               map_of (own_entries out) (camelToSnakeCaseString k) = Some (JObj c) \<and>
               camelToSnakeCaseKeys (JArr xs) = Inr (JObj c) \<and>
               array_as_mapping camelToSnakeCaseKeys xs c)) \<and>
   (snakeToCamelCaseString k \<notin> snakeToCamelCaseString ` fst ` set post \<longrightarrow>
      (\<exists>out c. snakeToCamelCaseKeys (JObj (pre @ (k, JArr xs) # post)) = Inr out \<and>
               map_of (own_entries out) (snakeToCamelCaseString k) = Some (JObj c) \<and>
               snakeToCamelCaseKeys (JArr xs) = Inr (JObj c) \<and>
               array_as_mapping snakeToCamelCaseKeys xs c))"
proof (intro conjI impI)
  assume "camelToSnakeCaseString k \<noteq> ''__proto__'' \<and>
          camelToSnakeCaseString k \<notin> camelToSnakeCaseString ` fst ` set post"
  then have a: "camelToSnakeCaseString k \<noteq> ''__proto__''"
    and b: "camelToSnakeCaseString k \<notin> camelToSnakeCaseString ` fst ` set post"
    by simp_all
  from a b show "\<exists>out c. camelToSnakeCaseKeys (JObj (pre @ (k, JArr xs) # post)) = Inr out \<and>
               map_of (own_entries out) (camelToSnakeCaseString k) = Some (JObj c) \<and>
               camelToSnakeCaseKeys (JArr xs) = Inr (JObj c) \<and>
               array_as_mapping camelToSnakeCaseKeys xs c"
    by - (rule array_entry_converted [where rec = camelToSnakeCaseKeys and conv = camelToSnakeCaseString],
          erule camelToSnakeCaseKeys_fold, rule camelToSnake_digits, assumption, assumption)
next
  assume b: "snakeToCamelCaseString k \<notin> snakeToCamelCaseString ` fst ` set post"
  note a = snakeToCamel_not_proto [of k]
  from a b show "\<exists>out c. snakeToCamelCaseKeys (JObj (pre @ (k, JArr xs) # post)) = Inr out \<and>
               map_of (own_entries out) (snakeToCamelCaseString k) = Some (JObj c) \<and>
               snakeToCamelCaseKeys (JArr xs) = Inr (JObj c) \<and>
               array_as_mapping snakeToCamelCaseKeys xs c"
    by - (rule array_entry_converted [where rec = snakeToCamelCaseKeys and conv = snakeToCamelCaseString],
          erule snakeToCamelCaseKeys_fold, rule snakeToCamel_digits, assumption, assumption)
qed

text \<open>
  C4: the spec says that a value that is an array is copied by reference under the converted
  key, with no conversion inside its elements and without becoming a plain mapping; the
  comment of the source says that the conversion works recursively but not with arrays. The
  guard of the recursive call leaves out \<open>null\<close> and dates but not arrays: for
  \<open>{ myList: [{ fooBar: 1 }] }\<close> the result holds under \<open>my_list\<close> the mapping
  \<open>{ "0": { foo_bar: 1 } }\<close>, not the array, and likewise for the other conversion.
\<close>

theorem key_conversions_array_entry:
  "camelToSnakeCaseKeys (JObj [(''myList'', JArr [JObj [(''fooBar'', JNum 1)]])]) =
     Inr (JObj [(''my_list'', JObj [(''0'', JObj [(''foo_bar'', JNum 1)])])]) \<and>
   camelToSnakeCaseKeys (JObj [(''myList'', JArr [JObj [(''fooBar'', JNum 1)]])]) \<noteq>
     Inr (JObj [(''my_list'', JArr [JObj [(''fooBar'', JNum 1)]])]) \<and>
   snakeToCamelCaseKeys (JObj [(''my_list'', JArr [JObj [(''foo_bar'', JNum 1)]])]) =
     Inr (JObj [(''myList'', JObj [(''0'', JObj [(''fooBar'', JNum 1)])])]) \<and>
   snakeToCamelCaseKeys (JObj [(''my_list'', JArr [JObj [(''foo_bar'', JNum 1)]])]) \<noteq>
     Inr (JObj [(''myList'', JArr [JObj [(''foo_bar'', JNum 1)]])])"
  by code_simp

subsection \<open>The INSERT fragment\<close>




subsection \<open>Array objects\<close>

text \<open>
  C1: the spec asks for the values in ascending numeric order of the keys, so that
  \<open>{"10": "x", "2": "y"}\<close> gives \<open>["y", "x"]\<close>. The source parses the keys and then calls
  \<open>sort()\<close> with no comparison function, which orders numbers by their decimal text: 10 comes
  before 2 and the result is \<open>["x", "y"]\<close>.
\<close>

theorem arrayObjectToArray_orders_by_text:
  "arrayObjectToArray [(''2'', ''y''), (''10'', ''x'')] = [Some ''x'', Some ''y'']"
  by code_simp

subsection \<open>The WHERE fragment\<close>

text \<open>The loop of \<open>getWhereParams\<close>: what one entry does to the state, and how far the
  loop gets.\<close>

lemma forEach_append:
  "forEach f (xs @ ys) s = (case forEach f xs s of Inl e \<Rightarrow> Inl e | Inr s' \<Rightarrow> forEach f ys s')"
  by (induction xs arbitrary: s) (auto split: sum.splits)

lemma split_takeWhile:
  "split sep s =
     takeWhile (\<lambda>c. c \<noteq> sep) s #
     (if sep \<in> set s then split sep (drop 1 (dropWhile (\<lambda>c. c \<noteq> sep) s)) else [])"
  by (induction s) (auto split: list.splits)

lemma split_colon:
  assumes "CHR '':'' \<in> set k"
  shows "\<exists>rest. split CHR '':'' k = takeWhile (\<lambda>c. c \<noteq> CHR '':'') k # operatorToken k # rest"
proof -
  let ?r = "drop 1 (dropWhile (\<lambda>c. c \<noteq> CHR '':'') k)"
  have "split CHR '':'' k = takeWhile (\<lambda>c. c \<noteq> CHR '':'') k # split CHR '':'' ?r"
    using assms split_takeWhile [of "CHR '':''" k] by simp
  moreover have "\<exists>rest. split CHR '':'' ?r = operatorToken k # rest"
    using split_takeWhile [of "CHR '':''" ?r] by (simp add: operatorToken_def)
  ultimately show ?thesis by auto
qed

lemma operator_lookup_None:
  "operator_lookup t = None \<longleftrightarrow>
     t \<notin> fst ` set COMPARISON_OPERATORS_MAP \<and> t \<notin> fst ` set Object_prototype_properties"
proof (cases "map_of COMPARISON_OPERATORS_MAP t")
  case None
  then have "t \<notin> fst ` set COMPARISON_OPERATORS_MAP"
    by (simp add: map_of_eq_None_iff)
  then show ?thesis
    unfolding operator_lookup_def None
    by (simp add: map_of_eq_None_iff [of Object_prototype_properties t])
next
  case (Some a)
  then have "t \<in> fst ` set COMPARISON_OPERATORS_MAP"
    using map_of_eq_None_iff [of COMPARISON_OPERATORS_MAP t] by simp
  with Some show ?thesis by (simp add: operator_lookup_def)
qed

lemma resolveKey_colon:
  assumes "CHR '':'' \<in> set k"
  shows "resolveKey k =
     (case operator_lookup (operatorToken k) of
        None \<Rightarrow> Inl InvalidOperator
      | Some comparisonOperator \<Rightarrow> Inr (takeWhile (\<lambda>c. c \<noteq> CHR '':'') k, comparisonOperator))"
proof -
  from split_colon [OF assms] obtain rest where
    "split CHR '':'' k = takeWhile (\<lambda>c. c \<noteq> CHR '':'') k # operatorToken k # rest" ..
  with assms show ?thesis by (simp add: resolveKey_def)
qed

lemma resolveKey_no_colon: "CHR '':'' \<notin> set k \<Longrightarrow> resolveKey k = Inr (k, ''='')"
  by (simp add: resolveKey_def)

lemma resolveKey_error: "resolveKey k = Inl e \<Longrightarrow> e = InvalidOperator"
  by (auto simp: resolveKey_def split: if_splits list.splits option.splits)

lemma resolveKey_invalid: "resolveKey k = Inl InvalidOperator \<longleftrightarrow> invalid_operator_key k"
proof (cases "CHR '':'' \<in> set k")
  case True
  then show ?thesis
    by (auto simp: resolveKey_colon invalid_operator_key_def operator_lookup_None [symmetric]
             split: option.splits)
next
  case False
  then show ?thesis by (simp add: resolveKey_no_colon invalid_operator_key_def)
qed

lemma whereEntry_raises:
  "(\<exists>e. whereEntry p entry st = Inl e) \<longleftrightarrow> entry_raises entry"
  "whereEntry p entry st = Inl InvalidOperator \<longleftrightarrow> invalid_operator_key (fst entry)"
  "whereEntry p entry st = Inl TypeError \<longleftrightarrow> list_operator_without_string entry"
proof -
  obtain k v where entry: "entry = (k, v)" by (cases entry)
  obtain ls ps where st: "st = (ls, ps)" by (cases st)
  show "whereEntry p entry st = Inl InvalidOperator \<longleftrightarrow> invalid_operator_key (fst entry)"
    unfolding entry st resolveKey_invalid [symmetric]
    by (cases "resolveKey k")
       (auto simp: whereEntry_def Let_def dest: resolveKey_error split: jsval.splits if_splits)
  show "whereEntry p entry st = Inl TypeError \<longleftrightarrow> list_operator_without_string entry"
    unfolding entry st
    by (cases "resolveKey k")
       (auto simp: whereEntry_def list_operator_without_string_def Let_def
             dest: resolveKey_error split: jsval.splits if_splits)
  show "(\<exists>e. whereEntry p entry st = Inl e) \<longleftrightarrow> entry_raises entry"
    unfolding entry st entry_raises_def resolveKey_invalid [symmetric]
    by (cases "resolveKey k")
       (auto simp: whereEntry_def list_operator_without_string_def Let_def
             dest: resolveKey_error split: jsval.splits if_splits)
qed

lemma forEach_whereEntry_find:
  "find entry_raises es = Some e \<Longrightarrow>
   forEach (whereEntry p) es st =
     (if invalid_operator_key (fst e) then Inl InvalidOperator else Inl TypeError)"
proof (induction es arbitrary: st)
  case Nil
  then show ?case by simp
next
  case (Cons x es)
  show ?case
  proof (cases "entry_raises x")
    case True
    then obtain err where err: "whereEntry p x st = Inl err"
      using whereEntry_raises(1) [of p x st] by blast
    from True Cons.prems have "e = x" by simp
    then show ?thesis
      using err whereEntry_raises(2) [of p x st] by (cases err) auto
  next
    case False
    then obtain st' where "whereEntry p x st = Inr st'"
      using whereEntry_raises(1) [of p x st] by (cases "whereEntry p x st") auto
    then show ?thesis
      using False Cons.IH [of st'] Cons.prems by simp
  qed
qed

lemma forEach_whereEntry_ok:
  "find entry_raises es = None \<Longrightarrow> \<exists>st'. forEach (whereEntry p) es st = Inr st'"
proof (induction es arbitrary: st)
  case Nil
  show ?case by simp
next
  case (Cons x es)
  then have "\<not> entry_raises x" and none: "find entry_raises es = None"
    by (auto split: if_splits)
  then obtain st' where "whereEntry p x st = Inr st'"
    using whereEntry_raises(1) [of p x st] by (cases "whereEntry p x st") auto
  then show ?case using Cons.IH [OF none, of st'] by simp
qed

lemma camelToSnake_snake_case: "camelToSnakeCaseString s = snake_case s"
  by (induction s) (simp_all add: snake_case_def)

lemma whereEntry_scalar:
  "scalar_operator_key k \<Longrightarrow>
   whereEntry p (k, v) (ls, ps) = Inr (ls @ [scalarLine p (Suc (length ps)) k], ps @ [v])"
  by (cases "resolveKey k")
     (auto simp: scalar_operator_key_def whereEntry_def scalarLine_def Let_def
                 camelToSnake_snake_case)

lemma whereEntry_list:
  "list_operator_key k \<Longrightarrow>
   whereEntry p (k, v) (ls, ps) =
     (case v of
        JStr s \<Rightarrow> Inr (ls @ [listLine p (Suc (length ps)) k (split CHR '','' s)],
                      ps @ [JArr (map JStr (split CHR '','' s))])
      | _ \<Rightarrow> Inl TypeError)"
  by (cases "resolveKey k")
     (auto simp: list_operator_key_def whereEntry_def listLine_def Let_def algebra_simps
                 camelToSnake_snake_case
           split: jsval.splits)

lemma whereEntry_null:
  "null_operator_key k \<Longrightarrow>
   \<exists>line. \<forall>v. whereEntry p (k, v) (ls, ps) = Inr (ls @ [line], ps)"
  by (cases "resolveKey k")
     (auto simp: null_operator_key_def whereEntry_def)

lemma whereEntry_extends:
  "whereEntry p e (ls, ps) = Inr (ls', ps') \<Longrightarrow> \<exists>l pa. ls' = ls @ [l] \<and> ps' = ps @ pa"
  by (cases e; cases "resolveKey (fst e)")
     (auto simp: whereEntry_def Let_def split: if_splits jsval.splits)

lemma forEach_extends:
  "forEach (whereEntry p) es (ls, ps) = Inr (ls', ps') \<Longrightarrow>
   \<exists>la pa. ls' = ls @ la \<and> ps' = ps @ pa \<and> length la = length es"
proof (induction es arbitrary: ls ps)
  case Nil
  then show ?case by simp
next
  case (Cons e es)
  from Cons.prems obtain l1 p1 where
    step: "whereEntry p e (ls, ps) = Inr (l1, p1)" and
    rest: "forEach (whereEntry p) es (l1, p1) = Inr (ls', ps')"
    by (auto split: sum.splits)
  from whereEntry_extends [OF step] obtain l pa where "l1 = ls @ [l]" "p1 = ps @ pa"
    by blast
  moreover from Cons.IH [OF rest] obtain la pb where
    "ls' = l1 @ la" "ps' = p1 @ pb" "length la = length es"
    by blast
  ultimately show ?case by simp
qed

lemma whereEntry_params_count:
  "whereEntry p e (ls, ps) = Inr (ls', ps') \<Longrightarrow> length ps' \<le> Suc (length ps)"
  by (cases e; cases "resolveKey (fst e)")
     (auto simp: whereEntry_def Let_def split: if_splits jsval.splits)

lemma forEach_params_count:
  "forEach (whereEntry p) es (ls, ps) = Inr (ls', ps') \<Longrightarrow> length ps' \<le> length ps + length es"
proof (induction es arbitrary: ls ps)
  case Nil
  then show ?case by simp
next
  case (Cons e es)
  from Cons.prems obtain l1 p1 where
    step: "whereEntry p e (ls, ps) = Inr (l1, p1)" and
    rest: "forEach (whereEntry p) es (l1, p1) = Inr (ls', ps')"
    by (auto split: sum.splits)
  from whereEntry_params_count [OF step] Cons.IH [OF rest] show ?case by simp
qed

lemma whereEntry_params:
  "map_sum id snd (whereEntry p e (ls, ps)) = map_sum id snd (whereEntry p e (ls', ps))"
  by (cases e; cases "resolveKey (fst e)")
     (auto simp: whereEntry_def Let_def split: if_splits jsval.splits)

lemma forEach_params:
  "map_sum id snd (forEach (whereEntry p) es (ls, ps)) =
   map_sum id snd (forEach (whereEntry p) es (ls', ps))"
proof (induction es arbitrary: ls ls' ps)
  case Nil
  show ?case by simp
next
  case (Cons e es)
  show ?case
  proof (cases "whereEntry p e (ls, ps)")
    case (Inl err)
    with whereEntry_params [of p e ls ps ls'] have "whereEntry p e (ls', ps) = Inl err"
      by (cases "whereEntry p e (ls', ps)") auto
    with Inl show ?thesis by simp
  next
    case (Inr st)
    obtain l1 p1 where st: "st = (l1, p1)" by (cases st)
    with Inr whereEntry_params [of p e ls ps ls'] obtain l2 where
      "whereEntry p e (ls', ps) = Inr (l2, p1)"
      by (cases "whereEntry p e (ls', ps)") auto
    with Inr st show ?thesis using Cons.IH [of l1 p1 l2] by simp
  qed
qed

lemma forEach_scalar:
  "\<forall>(k, v) \<in> set es. scalar_operator_key k \<Longrightarrow>
   forEach (whereEntry p) es (ls, ps) =
     Inr (ls @ map (\<lambda>(count, (k, v)). scalarLine p count k) (enumerate (Suc (length ps)) es),
          ps @ map snd es)"
proof (induction es arbitrary: ls ps)
  case Nil
  show ?case by simp
next
  case (Cons e es)
  obtain k v where e: "e = (k, v)" by (cases e)
  from Cons.prems have k: "scalar_operator_key k" and rest: "\<forall>(k, v) \<in> set es. scalar_operator_key k"
    by (auto simp: e)
  show ?case
    using Cons.IH [OF rest, of "ls @ [scalarLine p (Suc (length ps)) k]" "ps @ [v]"]
    by (simp add: e whereEntry_scalar [OF k])
qed

lemma getWhereParams_forEach:
  "getWhereParams es p = Inr out \<longleftrightarrow>
     (\<exists>lines params. forEach (whereEntry p) es ([], []) = Inr (lines, params) \<and>
        out = \<lparr>whereSegment = join ''\<newline>AND\<newline>'' lines, whereParams = params\<rparr>)"
  by (auto simp: getWhereParams_def split: sum.splits)

lemma getWhereParams_error:
  "getWhereParams es p = Inl e \<longleftrightarrow> forEach (whereEntry p) es ([], []) = Inl e"
  by (auto simp: getWhereParams_def split: sum.splits)


text \<open>
  C6: when every key resolves to a scalar comparison operator, \<open>getWhereParams\<close> emits for
  each entry, in order, the line \<open><snake_case field> <operator> $k\<close> with \<open>k\<close> the running
  parameter count plus \<open>paramsOffset\<close>, joins the lines with a line holding \<open>AND\<close>, and
  returns the values in order. The offset and the largest placeholder number, the offset plus
  the number of entries, are safe integers, so that the sums of the source are exact.
  \<open>{ "age:gte": 18, "age:lt": 65 }\<close> gives \<open>age >= $1\<close>, \<open>AND\<close>, \<open>age < $2\<close> with parameters
  \<open>[18, 65]\<close>; offset 2 on \<open>{ a: 1 }\<close> gives \<open>$3\<close>; the empty mapping, for which no number is
  computed, gives the empty text and no parameters.
\<close>

theorem getWhereParams_scalar_entries:
  "((\<forall>(k, v) \<in> set es. scalar_operator_key k) \<and>
    safe_integer p \<and> safe_integer (p + int (length es)) \<longrightarrow>
      getWhereParams es p =
        Inr \<lparr>whereSegment =
               join ''\<newline>AND\<newline>''
                 (map (\<lambda>(count, (k, v)). scalarLine p count k) (enumerate 1 es)),
             whereParams = map snd es\<rparr>) \<and>
   getWhereParams [(''age:gte'', JNum 18), (''age:lt'', JNum 65)] 0 =
     Inr \<lparr>whereSegment = ''age >= $1\<newline>AND\<newline>age < $2'', whereParams = [JNum 18, JNum 65]\<rparr> \<and>
   getWhereParams [(''a'', JNum 1)] 2 =
     Inr \<lparr>whereSegment = ''a = $3'', whereParams = [JNum 1]\<rparr> \<and>
   getWhereParams [] p = Inr \<lparr>whereSegment = [], whereParams = []\<rparr>"
proof (intro conjI impI)
  assume "(\<forall>(k, v) \<in> set es. scalar_operator_key k) \<and>
    safe_integer p \<and> safe_integer (p + int (length es))"
  then have "\<forall>(k, v) \<in> set es. scalar_operator_key k"
    by (rule conjunct1)
  from forEach_scalar [OF this, of p "[]" "[]"]
  show "getWhereParams es p =
        Inr \<lparr>whereSegment =
               join ''\<newline>AND\<newline>''
                 (map (\<lambda>(count, (k, v)). scalarLine p count k) (enumerate 1 es)),
             whereParams = map snd es\<rparr>"
    by (simp add: getWhereParams_def)
next
  show "getWhereParams [(''age:gte'', JNum 18), (''age:lt'', JNum 65)] 0 =
     Inr \<lparr>whereSegment = ''age >= $1\<newline>AND\<newline>age < $2'', whereParams = [JNum 18, JNum 65]\<rparr>"
    by code_simp
next
  show "getWhereParams [(''a'', JNum 1)] 2 =
     Inr \<lparr>whereSegment = ''a = $3'', whereParams = [JNum 1]\<rparr>"
    by code_simp
next
  show "getWhereParams [] p = Inr \<lparr>whereSegment = [], whereParams = []\<rparr>"
    by (simp add: getWhereParams_def)
qed


text \<open>C6, witness: two scalar entries with offset 4, the field of the first in camel case.\<close>

theorem getWhereParams_scalar_entries_witness:
  "scalar_operator_key ''firstName:like'' \<and> scalar_operator_key ''age:lte'' \<and>
   safe_integer 4 \<and> safe_integer 6 \<and>
   getWhereParams [(''firstName:like'', JStr ''J%''), (''age:lte'', JNum 40)] 4 =
     Inr \<lparr>whereSegment = ''first_name LIKE $5\<newline>AND\<newline>age <= $6'',
          whereParams = [JStr ''J%'', JNum 40]\<rparr>"
proof -
  have k1: "scalar_operator_key ''firstName:like''" and k2: "scalar_operator_key ''age:lte''"
    by code_simp+
  then have h: "\<forall>(k, v) \<in> set [(''firstName:like'', JStr ''J%''), (''age:lte'', JNum 40)].
                  scalar_operator_key k"
    by simp
  have s1: "safe_integer 4" and s2: "safe_integer 6"
    by (simp_all add: safe_integer_def)
  have s3: "safe_integer
              (4 + int (length [(''firstName:like'', JStr ''J%''), (''age:lte'', JNum 40)]))"
    using s2 by simp
  have v: "join ''\<newline>AND\<newline>''
             (map (\<lambda>(count, (k, v)). scalarLine 4 count k)
                (enumerate 1 [(''firstName:like'', JStr ''J%''), (''age:lte'', JNum 40)])) =
           ''first_name LIKE $5\<newline>AND\<newline>age <= $6''"
    by code_simp
  from getWhereParams_scalar_entries
         [of "[(''firstName:like'', JStr ''J%''), (''age:lte'', JNum 40)]" 4,
          THEN conjunct1, THEN mp, OF conjI [OF h conjI [OF s1 s3]]]
  have "getWhereParams [(''firstName:like'', JStr ''J%''), (''age:lte'', JNum 40)] 4 =
        Inr \<lparr>whereSegment = ''first_name LIKE $5\<newline>AND\<newline>age <= $6'',
             whereParams = [JStr ''J%'', JNum 40]\<rparr>"
    unfolding v by simp
  with k1 k2 s1 s2 show ?thesis by simp
qed

text \<open>
  C5: an entry whose key resolves to \<open>IN\<close> or \<open>NOT IN\<close> and whose value is a string does
  not make \<open>getWhereParams\<close> fail: it returns when no other entry raises. When
  \<open>getWhereParams\<close> returns, the value of such an entry is a string; the line of the entry is
  \<open><snake_case field> <operator> ($k, $k+1, ...)\<close> with one placeholder for each piece of the
  string split at commas, numbered from the running parameter count (this entry included)
  plus \<open>paramsOffset\<close>; and the whole list of pieces is one entry of the returned parameters.
  The numbers of the run are safe integers, so that the sums of the source are exact.
  \<open>{ "status:in": "a,b,c" }\<close> gives three placeholders and the parameters \<open>[["a","b","c"]]\<close>,
  and \<open>{ "firstName:notIn": "x,y" }\<close> gives the line \<open>first_name NOT IN ($1, $2)\<close>.
\<close>

theorem getWhereParams_list_entry:
  "(list_operator_key k \<and> \<not> (\<exists>e \<in> set (pre @ post). entry_raises e) \<and>
    exact_numbers (pre @ (k, JStr s') # post) p \<longrightarrow>
      (\<exists>out. getWhereParams (pre @ (k, JStr s') # post) p = Inr out)) \<and>
   (list_operator_key k \<and> getWhereParams (pre @ (k, v) # post) p = Inr out \<and>
    exact_numbers (pre @ (k, v) # post) p \<longrightarrow>
      (\<exists>s lines m.
         v = JStr s \<and>
         whereSegment out = join ''\<newline>AND\<newline>'' lines \<and>
         length lines = length pre + 1 + length post \<and>
         m < length (whereParams out) \<and>
         getWhereParams pre p =
           Inr \<lparr>whereSegment = join ''\<newline>AND\<newline>'' (take (length pre) lines),
                whereParams = take m (whereParams out)\<rparr> \<and>
         lines ! length pre = listLine p (m + 1) k (split CHR '','' s) \<and>
         whereParams out ! m = JArr (map JStr (split CHR '','' s)))) \<and>
   getWhereParams [(''status:in'', JStr ''a,b,c'')] 0 =
     Inr \<lparr>whereSegment = ''status IN ($1, $2, $3)'',
          whereParams = [JArr [JStr ''a'', JStr ''b'', JStr ''c'']]\<rparr> \<and>
   getWhereParams [(''firstName:notIn'', JStr ''x,y'')] 0 =
     Inr \<lparr>whereSegment = ''first_name NOT IN ($1, $2)'',
          whereParams = [JArr [JStr ''x'', JStr ''y'']]\<rparr>"
proof (intro conjI impI)
  assume a: "list_operator_key k \<and> \<not> (\<exists>e \<in> set (pre @ post). entry_raises e) \<and>
    exact_numbers (pre @ (k, JStr s') # post) p"
  then have lk: "list_operator_key k" and no: "\<not> (\<exists>e \<in> set (pre @ post). entry_raises e)"
    by simp_all
  from lk obtain field operator where "resolveKey k = Inr (field, operator)"
    by (cases "resolveKey k") (auto simp: list_operator_key_def)
  then have "\<not> invalid_operator_key k"
    by (simp add: resolveKey_invalid [symmetric])
  then have "\<not> entry_raises (k, JStr s')"
    by (simp add: entry_raises_def list_operator_without_string_def split: sum.splits)
  with no have "find entry_raises (pre @ (k, JStr s') # post) = None"
    by (auto simp: find_None_iff)
  from forEach_whereEntry_ok [OF this, of p "([], [])"]
  show "\<exists>out. getWhereParams (pre @ (k, JStr s') # post) p = Inr out"
    by (auto simp: getWhereParams_def)
next
  assume a: "list_operator_key k \<and> getWhereParams (pre @ (k, v) # post) p = Inr out \<and>
    exact_numbers (pre @ (k, v) # post) p"
  then have k: "list_operator_key k" and
    ret: "getWhereParams (pre @ (k, v) # post) p = Inr out"
    by simp_all
  from ret obtain lines params where
    run: "forEach (whereEntry p) (pre @ (k, v) # post) ([], []) = Inr (lines, params)" and
    out: "out = \<lparr>whereSegment = join ''\<newline>AND\<newline>'' lines, whereParams = params\<rparr>"
    by (auto simp: getWhereParams_forEach)
  from run obtain l1 p1 where
    pre: "forEach (whereEntry p) pre ([], []) = Inr (l1, p1)" and
    rest: "forEach (whereEntry p) ((k, v) # post) (l1, p1) = Inr (lines, params)"
    by (auto simp: forEach_append split: sum.splits)
  from rest obtain l2 p2 where
    step: "whereEntry p (k, v) (l1, p1) = Inr (l2, p2)" and
    post: "forEach (whereEntry p) post (l2, p2) = Inr (lines, params)"
    by (auto split: sum.splits)
  from step obtain s where
    v: "v = JStr s" and
    l2: "l2 = l1 @ [listLine p (Suc (length p1)) k (split CHR '','' s)]" and
    p2: "p2 = p1 @ [JArr (map JStr (split CHR '','' s))]"
    by (auto simp: whereEntry_list [OF k] split: jsval.splits)
  from forEach_extends [OF pre] have len1: "length l1 = length pre" by auto
  from forEach_extends [OF post] obtain la pa where
    lines: "lines = l2 @ la" and params: "params = p2 @ pa" and la: "length la = length post"
    by blast
  have f1: "length lines = length pre + 1 + length post"
    by (simp add: lines l2 len1 la)
  have f2: "length p1 < length (whereParams out)"
    by (simp add: out params p2)
  have f3: "getWhereParams pre p =
      Inr \<lparr>whereSegment = join ''\<newline>AND\<newline>'' (take (length pre) lines),
           whereParams = take (length p1) (whereParams out)\<rparr>"
    by (simp add: getWhereParams_def pre out lines params l2 p2 len1)
  have f4: "lines ! length pre = listLine p (length p1 + 1) k (split CHR '','' s)"
    by (simp add: lines l2 len1 [symmetric] nth_append)
  have f5: "whereParams out ! length p1 = JArr (map JStr (split CHR '','' s))"
    by (simp add: out params p2 nth_append)
  have f0: "whereSegment out = join ''\<newline>AND\<newline>'' lines"
    by (simp add: out)
  show "\<exists>s lines m.
         v = JStr s \<and>
         whereSegment out = join ''\<newline>AND\<newline>'' lines \<and>
         length lines = length pre + 1 + length post \<and>
         m < length (whereParams out) \<and>
         getWhereParams pre p =
           Inr \<lparr>whereSegment = join ''\<newline>AND\<newline>'' (take (length pre) lines),
                whereParams = take m (whereParams out)\<rparr> \<and>
         lines ! length pre = listLine p (m + 1) k (split CHR '','' s) \<and>
         whereParams out ! m = JArr (map JStr (split CHR '','' s))"
    by (intro exI [of _ s] exI [of _ lines] exI [of _ "length p1"] conjI v f0 f1 f2 f3 f4 f5)
next
  show "getWhereParams [(''status:in'', JStr ''a,b,c'')] 0 =
     Inr \<lparr>whereSegment = ''status IN ($1, $2, $3)'',
          whereParams = [JArr [JStr ''a'', JStr ''b'', JStr ''c'']]\<rparr>"
    by code_simp
next
  show "getWhereParams [(''firstName:notIn'', JStr ''x,y'')] 0 =
     Inr \<lparr>whereSegment = ''first_name NOT IN ($1, $2)'',
          whereParams = [JArr [JStr ''x'', JStr ''y'']]\<rparr>"
    by code_simp
qed

text \<open>C5, witness: a \<open>notIn\<close> entry on a field in camel case, between two scalar entries,
  with offset 4.\<close>

theorem getWhereParams_list_entry_witness:
  "list_operator_key ''firstName:notIn'' \<and>
   \<not> entry_raises (''a'', JNum 1) \<and> \<not> entry_raises (''b'', JNum 2) \<and>
   exact_numbers [(''a'', JNum 1), (''firstName:notIn'', JStr ''x,y''), (''b'', JNum 2)] 4 \<and>
   (\<exists>out. getWhereParams [(''a'', JNum 1), (''firstName:notIn'', JStr ''x,y''), (''b'', JNum 2)] 4 =
      Inr out) \<and>
   getWhereParams [(''a'', JNum 1), (''firstName:notIn'', JStr ''x,y''), (''b'', JNum 2)] 4 =
     Inr \<lparr>whereSegment = ''a = $5\<newline>AND\<newline>first_name NOT IN ($6, $7)\<newline>AND\<newline>b = $7'',
          whereParams = [JNum 1, JArr [JStr ''x'', JStr ''y''], JNum 2]\<rparr> \<and>
   listLine 4 2 ''firstName:notIn'' [''x'', ''y''] = ''first_name NOT IN ($6, $7)'' \<and>
   (\<exists>s lines m.
      JStr ''x,y'' = JStr s \<and>
      ''a = $5\<newline>AND\<newline>first_name NOT IN ($6, $7)\<newline>AND\<newline>b = $7'' =
        join ''\<newline>AND\<newline>'' lines \<and>
      length lines = 3 \<and>
      m < 3 \<and>
      getWhereParams [(''a'', JNum 1)] 4 =
        Inr \<lparr>whereSegment = join ''\<newline>AND\<newline>'' (take 1 lines),
             whereParams = take m [JNum 1, JArr [JStr ''x'', JStr ''y''], JNum 2]\<rparr> \<and>
      lines ! 1 = listLine 4 (m + 1) ''firstName:notIn'' (split CHR '','' s) \<and>
      [JNum 1, JArr [JStr ''x'', JStr ''y''], JNum 2] ! m = JArr (map JStr (split CHR '','' s)))"
proof -
  have k: "list_operator_key ''firstName:notIn''"
    by code_simp
  have run: "getWhereParams ([(''a'', JNum 1)] @ (''firstName:notIn'', JStr ''x,y'') # [(''b'', JNum 2)]) 4 =
     Inr \<lparr>whereSegment = ''a = $5\<newline>AND\<newline>first_name NOT IN ($6, $7)\<newline>AND\<newline>b = $7'',
          whereParams = [JNum 1, JArr [JStr ''x'', JStr ''y''], JNum 2]\<rparr>"
    by code_simp
  have n1: "\<not> entry_raises (''a'', JNum 1)" and n2: "\<not> entry_raises (''b'', JNum 2)"
    by code_simp+
  then have n: "\<not> (\<exists>e \<in> set ([(''a'', JNum 1)] @ [(''b'', JNum 2)]). entry_raises e)"
    by simp
  have x: "exact_numbers ([(''a'', JNum 1)] @ (''firstName:notIn'', JStr ''x,y'') # [(''b'', JNum 2)]) 4"
    by code_simp
  have l: "listLine 4 2 ''firstName:notIn'' [''x'', ''y''] = ''first_name NOT IN ($6, $7)''"
    by code_simp
  from getWhereParams_list_entry
         [where k = "''firstName:notIn''" and pre = "[(''a'', JNum 1)]" and post = "[(''b'', JNum 2)]"
            and s' = "''x,y''" and p = 4,
          THEN conjunct1, THEN mp, OF conjI [OF k conjI [OF n x]]]
  have ret: "\<exists>out. getWhereParams [(''a'', JNum 1), (''firstName:notIn'', JStr ''x,y''), (''b'', JNum 2)] 4 =
      Inr out"
    by simp
  from getWhereParams_list_entry
         [where k = "''firstName:notIn''" and pre = "[(''a'', JNum 1)]" and post = "[(''b'', JNum 2)]"
            and p = 4 and v = "JStr ''x,y''"
            and out = "\<lparr>whereSegment = ''a = $5\<newline>AND\<newline>first_name NOT IN ($6, $7)\<newline>AND\<newline>b = $7'',
               whereParams = [JNum 1, JArr [JStr ''x'', JStr ''y''], JNum 2]\<rparr>",
          THEN conjunct2, THEN conjunct1, THEN mp, OF conjI [OF k conjI [OF run x]]]
  have "\<exists>s lines m.
      JStr ''x,y'' = JStr s \<and>
      ''a = $5\<newline>AND\<newline>first_name NOT IN ($6, $7)\<newline>AND\<newline>b = $7'' =
        join ''\<newline>AND\<newline>'' lines \<and>
      length lines = 3 \<and>
      m < 3 \<and>
      getWhereParams [(''a'', JNum 1)] 4 =
        Inr \<lparr>whereSegment = join ''\<newline>AND\<newline>'' (take 1 lines),
             whereParams = take m [JNum 1, JArr [JStr ''x'', JStr ''y''], JNum 2]\<rparr> \<and>
      lines ! 1 = listLine 4 (m + 1) ''firstName:notIn'' (split CHR '','' s) \<and>
      [JNum 1, JArr [JStr ''x'', JStr ''y''], JNum 2] ! m = JArr (map JStr (split CHR '','' s))"
    by (simp add: numeral_3_eq_3)
  with k run n1 n2 ret l x show ?thesis by simp
qed

text \<open>
  C7 (as stated in the spec): \<open>InvalidOperator\<close> is raised exactly when some key has a colon
  and the token after its first colon is not in the operator table, and nothing else fails.
  Three inputs say otherwise: an \<open>in\<close> entry with a number as value fails with a
  \<open>TypeError\<close>; the token \<open>toString\<close> is not in the table but is found on the prototype, so
  nothing is raised; and in \<open>a:eq:b\<close> the token after the first colon is \<open>eq:b\<close>, which is not
  in the table, while the code looks up \<open>eq\<close>.
\<close>

theorem getWhereParams_other_failures_counterexample:
  "getWhereParams [(''a:in'', JNum 5)] 0 = Inl TypeError \<and>
   map_of COMPARISON_OPERATORS_MAP ''in'' = Some ''IN'' \<and>
   getWhereParams [(''a:toString'', JNum 1)] 0 =
     Inr \<lparr>whereSegment = ''a function toString() { [native code] } $1'',
          whereParams = [JNum 1]\<rparr> \<and>
   map_of COMPARISON_OPERATORS_MAP ''toString'' = None \<and>
   getWhereParams [(''a:eq:b'', JNum 1)] 0 =
     Inr \<lparr>whereSegment = ''a = $1'', whereParams = [JNum 1]\<rparr> \<and>
   map_of COMPARISON_OPERATORS_MAP ''eq:b'' = None"
  by code_simp


lemma invalid_unknown:
  "\<not> inherited_operator_key k \<Longrightarrow> invalid_operator_key k \<longleftrightarrow> unknown_operator_key k"
  by (auto simp: invalid_operator_key_def unknown_operator_key_def inherited_operator_key_def)

lemma find_entry_fails:
  "\<forall>e \<in> set es. \<not> inherited_operator_key (fst e) \<Longrightarrow>
   find entry_fails es = find entry_raises es"
  by (induction es) (auto simp: entry_fails_def entry_raises_def invalid_unknown)

text \<open>
  C7 (amended): take an input mapping in which no key has an operator token that names a
  property the operator table inherits from \<open>Object.prototype\<close>. \<open>getWhereParams\<close> fails at
  the first entry, in order, whose key has an unknown operator or whose key resolves to \<open>IN\<close> /
  \<open>NOT IN\<close> while its value is not a string. It raises \<open>InvalidOperator\<close> exactly when that
  entry's key has an unknown operator: the key contains a colon, and the text between its first
  colon and the next (or the end) is not an entry of the operator table. It raises a
  \<open>TypeError\<close> exactly when that entry is an \<open>IN\<close> / \<open>NOT IN\<close> entry without a string
  value. It returns exactly when there is no such entry. A key with no colon never has an
  unknown operator and is treated as equality.
\<close>

theorem getWhereParams_failures:
  "((\<forall>e \<in> set es. \<not> inherited_operator_key (fst e)) \<longrightarrow>
      (getWhereParams es p = Inl InvalidOperator \<longleftrightarrow>
         (\<exists>e. find entry_fails es = Some e \<and> unknown_operator_key (fst e))) \<and>
      (getWhereParams es p = Inl TypeError \<longleftrightarrow>
         (\<exists>e. find entry_fails es = Some e \<and> list_operator_without_string e)) \<and>
      ((\<exists>out. getWhereParams es p = Inr out) \<longleftrightarrow> find entry_fails es = None)) \<and>
   (CHR '':'' \<notin> set k \<longrightarrow> \<not> unknown_operator_key k \<and> resolveKey k = Inr (k, ''=''))"
proof (intro conjI impI)
  assume h: "\<forall>e \<in> set es. \<not> inherited_operator_key (fst e)"
  note f = find_entry_fails [OF h]
  have excl: "\<not> (invalid_operator_key (fst e) \<and> list_operator_without_string e)" for e
    using resolveKey_invalid [of "fst e"]
    by (cases e) (auto simp: list_operator_without_string_def split: sum.splits)
  have same: "invalid_operator_key (fst e) \<longleftrightarrow> unknown_operator_key (fst e)"
    if "find entry_raises es = Some e" for e
  proof -
    from that have "e \<in> set es"
      by (auto simp: find_Some_iff)
    with h show ?thesis by (simp add: invalid_unknown)
  qed
  have all:
    "(getWhereParams es p = Inl InvalidOperator \<longleftrightarrow>
         (\<exists>e. find entry_fails es = Some e \<and> unknown_operator_key (fst e))) \<and>
     (getWhereParams es p = Inl TypeError \<longleftrightarrow>
         (\<exists>e. find entry_fails es = Some e \<and> list_operator_without_string e)) \<and>
     ((\<exists>out. getWhereParams es p = Inr out) \<longleftrightarrow> find entry_fails es = None)"
  proof (cases "find entry_raises es")
    case None
    from forEach_whereEntry_ok [OF None, of p "([], [])"] obtain st where
      st: "forEach (whereEntry p) es ([], []) = Inr st" ..
    then have "\<exists>out. getWhereParams es p = Inr out"
      by (cases st) (simp add: getWhereParams_def)
    moreover from st have
      "getWhereParams es p \<noteq> Inl InvalidOperator" "getWhereParams es p \<noteq> Inl TypeError"
      by (simp_all add: getWhereParams_error)
    ultimately show ?thesis using None by (simp add: f)
  next
    case (Some e)
    then have raises: "entry_raises e"
      by (auto simp: find_Some_iff)
    have run: "getWhereParams es p =
        (if invalid_operator_key (fst e) then Inl InvalidOperator else Inl TypeError)"
      using forEach_whereEntry_find [OF Some, of p "([], [])"]
      by (simp add: getWhereParams_def)
    show ?thesis
    proof (cases "invalid_operator_key (fst e)")
      case True
      with excl [of e] have "\<not> list_operator_without_string e" by simp
      with True run Some same [OF Some] show ?thesis by (simp add: f)
    next
      case False
      with raises have "list_operator_without_string e" by (simp add: entry_raises_def)
      with False run Some same [OF Some] show ?thesis by (simp add: f)
    qed
  qed
  from all show "getWhereParams es p = Inl InvalidOperator \<longleftrightarrow>
         (\<exists>e. find entry_fails es = Some e \<and> unknown_operator_key (fst e))"
    by (rule conjunct1)
  from all show "getWhereParams es p = Inl TypeError \<longleftrightarrow>
         (\<exists>e. find entry_fails es = Some e \<and> list_operator_without_string e)"
    by (rule conjunct1 [OF conjunct2])
  from all show "(\<exists>out. getWhereParams es p = Inr out) \<longleftrightarrow> find entry_fails es = None"
    by (rule conjunct2 [OF conjunct2])
next
  assume "CHR '':'' \<notin> set k"
  then show "\<not> unknown_operator_key k" by (simp add: unknown_operator_key_def)
next
  assume "CHR '':'' \<notin> set k"
  then show "resolveKey k = Inr (k, ''='')" by (rule resolveKey_no_colon)
qed

text \<open>C7, witness: the second of three entries has the unknown operator.\<close>

theorem getWhereParams_failures_witness:
  "\<not> inherited_operator_key ''age'' \<and> \<not> inherited_operator_key ''x:bogus'' \<and>
   \<not> inherited_operator_key ''a:in'' \<and>
   getWhereParams [(''age'', JNum 1), (''x:bogus'', JNum 1), (''a:in'', JNum 5)] 0 = Inl InvalidOperator \<and>
   find entry_fails [(''age'', JNum 1), (''x:bogus'', JNum 1), (''a:in'', JNum 5)] = Some (''x:bogus'', JNum 1) \<and>
   unknown_operator_key ''x:bogus'' \<and>
   CHR '':'' \<notin> set ''age'' \<and> \<not> unknown_operator_key ''age'' \<and> resolveKey ''age'' = Inr (''age'', ''='')"
proof -
  have i: "\<not> inherited_operator_key ''age''" "\<not> inherited_operator_key ''x:bogus''"
      "\<not> inherited_operator_key ''a:in''"
    by code_simp+
  then have h: "\<forall>e \<in> set [(''age'', JNum 1), (''x:bogus'', JNum 1), (''a:in'', JNum 5)].
                  \<not> inherited_operator_key (fst e)"
    by simp
  have f: "find entry_fails [(''age'', JNum 1), (''x:bogus'', JNum 1), (''a:in'', JNum 5)] = Some (''x:bogus'', JNum 1)"
    by code_simp
  have u: "unknown_operator_key ''x:bogus''"
    by code_simp
  have c: "CHR '':'' \<notin> set ''age''"
    by simp
  note t = getWhereParams_failures
      [of "[(''age'', JNum 1), (''x:bogus'', JNum 1), (''a:in'', JNum 5)]" 0 "''age''"]
  from t [THEN conjunct1, THEN mp, OF h, THEN conjunct1] f u
  have r: "getWhereParams [(''age'', JNum 1), (''x:bogus'', JNum 1), (''a:in'', JNum 5)] 0 =
           Inl InvalidOperator"
    by simp
  from t [THEN conjunct2, THEN mp, OF c]
  have n: "\<not> unknown_operator_key ''age'' \<and> resolveKey ''age'' = Inr (''age'', ''='')" .
  from i r f u c n show ?thesis by simp
qed

text \<open>
  C10: when a key resolves to \<open>IS NULL\<close> or \<open>IS NOT NULL\<close>, the value bound to it has no
  influence: two mappings that differ only in that value give the same result, and the entry
  adds nothing to the parameters, which are those of the mapping without the entry.
\<close>

theorem getWhereParams_null_entry:
  "null_operator_key k \<longrightarrow>
     getWhereParams (pre @ (k, v) # post) p = getWhereParams (pre @ (k, v') # post) p \<and>
     map_sum id whereParams (getWhereParams (pre @ (k, v) # post) p) =
       map_sum id whereParams (getWhereParams (pre @ post) p)"
proof
  assume k: "null_operator_key k"
  have same: "whereEntry p (k, v) st = whereEntry p (k, v') st" for st
    using whereEntry_null [OF k, of p "fst st" "snd st"] by auto
  have first: "getWhereParams (pre @ (k, v) # post) p = getWhereParams (pre @ (k, v') # post) p"
    by (cases "forEach (whereEntry p) pre ([], [])")
       (simp_all add: getWhereParams_def forEach_append same)
  have params: "map_sum id snd (forEach (whereEntry p) (pre @ (k, v) # post) ([], [])) =
                map_sum id snd (forEach (whereEntry p) (pre @ post) ([], []))"
  proof (cases "forEach (whereEntry p) pre ([], [])")
    case (Inl e)
    then show ?thesis by (simp add: forEach_append)
  next
    case (Inr st)
    obtain ls ps where st: "st = (ls, ps)" by (cases st)
    from whereEntry_null [OF k, of p ls ps] obtain line where
      "whereEntry p (k, v) (ls, ps) = Inr (ls @ [line], ps)" by blast
    then show ?thesis
      using forEach_params [of p post "ls @ [line]" ps ls]
      by (simp add: forEach_append Inr st)
  qed
  have unwrap: "map_sum id whereParams (getWhereParams es p) =
                map_sum id snd (forEach (whereEntry p) es ([], []))" for es
    by (auto simp: getWhereParams_def split: sum.splits)
  have second: "map_sum id whereParams (getWhereParams (pre @ (k, v) # post) p) =
                map_sum id whereParams (getWhereParams (pre @ post) p)"
    unfolding unwrap by (rule params)
  show "getWhereParams (pre @ (k, v) # post) p = getWhereParams (pre @ (k, v') # post) p \<and>
     map_sum id whereParams (getWhereParams (pre @ (k, v) # post) p) =
       map_sum id whereParams (getWhereParams (pre @ post) p)"
    by (rule conjI [OF first second])
qed


text \<open>C10, witness: an \<open>isNull\<close> entry between two scalar entries.\<close>

theorem getWhereParams_null_entry_witness:
  "null_operator_key ''deletedAt:isNull'' \<and>
   getWhereParams [(''a'', JNum 1), (''deletedAt:isNull'', JNull), (''b'', JNum 2)] 0 =
     getWhereParams [(''a'', JNum 1), (''deletedAt:isNull'', JStr ''x''), (''b'', JNum 2)] 0 \<and>
   map_sum id whereParams
     (getWhereParams [(''a'', JNum 1), (''deletedAt:isNull'', JNull), (''b'', JNum 2)] 0) =
     Inr [JNum 1, JNum 2]"
proof -
  have k: "null_operator_key ''deletedAt:isNull''"
    by code_simp
  have e: "map_sum id whereParams (getWhereParams [(''a'', JNum 1), (''b'', JNum 2)] 0) =
           Inr [JNum 1, JNum 2]"
    by code_simp
  note t = getWhereParams_null_entry
         [of "''deletedAt:isNull''" "[(''a'', JNum 1)]" JNull "[(''b'', JNum 2)]" 0 "JStr ''x''",
          THEN mp, OF k, unfolded append.simps]
  have r1: "getWhereParams [(''a'', JNum 1), (''deletedAt:isNull'', JNull), (''b'', JNum 2)] 0 =
            getWhereParams [(''a'', JNum 1), (''deletedAt:isNull'', JStr ''x''), (''b'', JNum 2)] 0"
    by (rule conjunct1 [OF t])
  have r2: "map_sum id whereParams
               (getWhereParams [(''a'', JNum 1), (''deletedAt:isNull'', JNull), (''b'', JNum 2)] 0) =
             map_sum id whereParams (getWhereParams [(''a'', JNum 1), (''b'', JNum 2)] 0)"
    by (rule conjunct2 [OF t])
  from r2 have r3: "map_sum id whereParams
               (getWhereParams [(''a'', JNum 1), (''deletedAt:isNull'', JNull), (''b'', JNum 2)] 0) =
             Inr [JNum 1, JNum 2]"
    by (simp only: e)
  show ?thesis by (intro conjI k r1 r3)
qed


text \<open>
  C2: the spec's invariant says that the text has as many placeholders as there are
  parameters, numbered contiguously from \<open>paramsOffset + 1\<close>. With an \<open>in\<close> entry the text
  gets one placeholder for each element of the list while the parameter sequence gets one
  entry, and the next entry reuses the number 2.
\<close>

theorem getWhereParams_in_breaks_numbering:
  "getWhereParams [(''status:in'', JStr ''a,b,c''), (''age'', JNum 5)] 0 =
     Inr \<lparr>whereSegment = ''status IN ($1, $2, $3)\<newline>AND\<newline>age = $2'',
          whereParams = [JArr [JStr ''a'', JStr ''b'', JStr ''c''], JNum 5]\<rparr> \<and>
   placeholders ''status IN ($1, $2, $3)\<newline>AND\<newline>age = $2'' = [1, 2, 3, 2]"
  by code_simp

end
